theory Spec2Isabelle
  imports Complex_Main
begin

section \<open>JavaScript values\<close>

text \<open>
  The front end is untyped JavaScript: responses of the backend and event payloads are
  inspected with \<open>Array.isArray\<close>, \<open>typeof\<close>, truthiness tests and property reads.
  Values that cross the Tauri bridge are JSON-like, so they are modelled by a datatype of
  JSON-like values (plus \<open>undefined\<close>). Numbers are IEEE doubles: the finite ones are
  embedded in the reals, and NaN and the two infinities are separate constructors.
\<close>

datatype jsnum = NaN | NegInf | Finite real | PosInf

datatype jsval =
    JUndefined
  | JNull
  | JBool bool
  | JNum jsnum
  | JStr string
  | JArr "jsval list"
  | JObj "(string \<times> jsval) list"

datatype js_error = TypeError

text \<open>Truthiness, as tested by \<open>!x\<close>, \<open>x && y\<close> and \<open>x ? a : b\<close>.\<close>

fun truthy :: "jsval \<Rightarrow> bool" where
  "truthy JUndefined = False"
| "truthy JNull = False"
| "truthy (JBool b) = b"
| "truthy (JNum NaN) = False"
| "truthy (JNum (Finite x)) = (x \<noteq> 0)"
| "truthy (JNum NegInf) = True"
| "truthy (JNum PosInf) = True"
| "truthy (JStr s) = (s \<noteq> [])"
| "truthy (JArr xs) = True"
| "truthy (JObj fs) = True"

fun typeof :: "jsval \<Rightarrow> string" where
  "typeof JUndefined = ''undefined''"
| "typeof JNull = ''object''"
| "typeof (JBool b) = ''boolean''"
| "typeof (JNum n) = ''number''"
| "typeof (JStr s) = ''string''"
| "typeof (JArr xs) = ''object''"
| "typeof (JObj fs) = ''object''"

text \<open>\<open>Array.isArray\<close>, and the elements of an array value.\<close>

fun isArray :: "jsval \<Rightarrow> bool" where
  "isArray (JArr xs) = True"
| "isArray v = False"

fun elements :: "jsval \<Rightarrow> jsval list" where
  "elements (JArr xs) = xs"
| "elements v = []"

text \<open>
  A property read \<open>v.k\<close>. Reading a property of \<open>null\<close> or \<open>undefined\<close> throws a
  TypeError; an object yields the field or \<open>undefined\<close>. The program only reads the
  properties \<open>paths\<close>, \<open>items\<close>, \<open>thumbnails\<close>, \<open>cancelled\<close> and \<open>path\<close>, none of
  which is a built-in property of an array or of a boxed primitive, so on those values
  the read yields \<open>undefined\<close>.
\<close>

fun js_get :: "jsval \<Rightarrow> string \<Rightarrow> js_error + jsval" where
  "js_get JUndefined k = Inl TypeError"
| "js_get JNull k = Inl TypeError"
| "js_get (JObj fs) k = Inr (case map_of fs k of Some v \<Rightarrow> v | None \<Rightarrow> JUndefined)"
| "js_get v k = Inr JUndefined"

text \<open>Optional chaining \<open>v?.k\<close>: \<open>undefined\<close> on \<open>null\<close> and \<open>undefined\<close>, never a throw.\<close>

definition js_get_opt :: "jsval \<Rightarrow> string \<Rightarrow> jsval" where
  "js_get_opt v k = (case js_get v k of Inl e \<Rightarrow> JUndefined | Inr x \<Rightarrow> x)"

text \<open>
  \<open>String(v)\<close>, which can throw: \<open>Inl\<close> is the TypeError, \<open>Inr\<close> the string. The
  rendering of a finite number (the engine's shortest round-trip decimal) is a parameter
  \<open>nts\<close>; everything else follows the language definition. An array is the
  comma-separated rendering of its elements, left to right, with \<open>null\<close> and
  \<open>undefined\<close> rendered empty; the first element whose conversion throws makes the
  whole conversion throw. An object is converted through its \<open>toString\<close> and
  \<open>valueOf\<close>: a JSON-like object holds no function, so an own \<open>toString\<close> property is
  not callable and is skipped, \<open>valueOf\<close> (own and skipped, or inherited and returning
  the object itself) yields no primitive, and the conversion throws a TypeError; without
  an own \<open>toString\<close> the inherited one gives \<open>[object Object]\<close>.
\<close>

fun join_comma :: "string list \<Rightarrow> string" where
  "join_comma [] = []"
| "join_comma [s] = s"
| "join_comma (s # t # ts) = s @ '','' @ join_comma (t # ts)"

text \<open>A list of results in order: the first error, or all the values.\<close>

fun collect :: "(js_error + 'a) list \<Rightarrow> js_error + 'a list" where
  "collect [] = Inr []"
| "collect (Inl e # rs) = Inl e"
| "collect (Inr x # rs) = (case collect rs of Inl e \<Rightarrow> Inl e | Inr xs \<Rightarrow> Inr (x # xs))"

fun Number_toString :: "(real \<Rightarrow> string) \<Rightarrow> jsnum \<Rightarrow> string" where
  "Number_toString nts NaN = ''NaN''"
| "Number_toString nts PosInf = ''Infinity''"
| "Number_toString nts NegInf = ''-Infinity''"
| "Number_toString nts (Finite x) = nts x"

fun js_String :: "(real \<Rightarrow> string) \<Rightarrow> jsval \<Rightarrow> js_error + string" where
  "js_String nts JUndefined = Inr ''undefined''"
| "js_String nts JNull = Inr ''null''"
| "js_String nts (JBool b) = Inr (if b then ''true'' else ''false'')"
| "js_String nts (JNum n) = Inr (Number_toString nts n)"
| "js_String nts (JStr s) = Inr s"
| "js_String nts (JArr xs) =
     (case collect (map (\<lambda>x. if x = JNull \<or> x = JUndefined then Inr [] else js_String nts x) xs) of
        Inl e \<Rightarrow> Inl e
      | Inr ss \<Rightarrow> Inr (join_comma ss))"
| "js_String nts (JObj fs) =
     (if map_of fs ''toString'' = None then Inr ''[object Object]'' else Inl TypeError)"

text \<open>\<open>xs.map((entry) => String(entry))\<close>: the strings, or the first TypeError.\<close>

definition map_String :: "(real \<Rightarrow> string) \<Rightarrow> jsval list \<Rightarrow> js_error + string list" where
  "map_String nts xs = collect (map (js_String nts) xs)"

text \<open>
  The values \<open>String\<close> converts: all but an object with an own \<open>toString\<close> property
  and an array that contains, at any depth, such an object.
\<close>

fun printable :: "jsval \<Rightarrow> bool" where
  "printable (JArr xs) = list_all printable xs"
| "printable (JObj fs) = (map_of fs ''toString'' = None)"
| "printable v = True"

text \<open>
  Decimal digits of a natural number: the engine's rendering of a non-negative
  integer-valued number below \<open>10^21\<close>. It instantiates \<open>nts\<close> in the examples.
\<close>

definition digit :: "nat \<Rightarrow> char" where
  "digit d = ''0123456789'' ! d"

function decimal :: "nat \<Rightarrow> string" where
  "decimal n = (if n < 10 then [digit n] else decimal (n div 10) @ [digit (n mod 10)])"
  by pat_completeness auto
termination
  by (relation "measure id") auto

declare decimal.simps [simp del]

definition integer_toString :: "real \<Rightarrow> string" where
  "integer_toString x = (if x < 0 then ''-'' else []) @ decimal (nat \<lfloor>\<bar>x\<bar>\<rfloor>)"

section \<open>Number helpers\<close>

text \<open>
  \<open>Math.min\<close> and \<open>Math.max\<close> of two numbers: NaN if either argument is NaN, otherwise
  the smaller (larger) one. \<open>Math.round\<close> rounds a finite number to the nearest integer,
  ties towards \<open>+\<infinity>\<close>; \<open>Math.floor\<close> rounds down; both keep NaN and the infinities.
\<close>

fun Math_min :: "jsnum \<Rightarrow> jsnum \<Rightarrow> jsnum" where
  "Math_min NaN b = NaN"
| "Math_min a NaN = NaN"
| "Math_min NegInf b = NegInf"
| "Math_min a NegInf = NegInf"
| "Math_min PosInf b = b"
| "Math_min a PosInf = a"
| "Math_min (Finite x) (Finite y) = Finite (min x y)"

fun Math_max :: "jsnum \<Rightarrow> jsnum \<Rightarrow> jsnum" where
  "Math_max NaN b = NaN"
| "Math_max a NaN = NaN"
| "Math_max PosInf b = PosInf"
| "Math_max a PosInf = PosInf"
| "Math_max NegInf b = b"
| "Math_max a NegInf = a"
| "Math_max (Finite x) (Finite y) = Finite (max x y)"

fun Math_round :: "jsnum \<Rightarrow> jsnum" where
  "Math_round (Finite x) = Finite (of_int \<lfloor>x + 1 / 2\<rfloor>)"
| "Math_round n = n"

fun Math_floor :: "jsnum \<Rightarrow> jsnum" where
  "Math_floor (Finite x) = Finite (of_int \<lfloor>x\<rfloor>)"
| "Math_floor n = n"

fun isFinite :: "jsnum \<Rightarrow> bool" where
  "isFinite (Finite x) = True"
| "isFinite n = False"

section \<open>Thumbnail size\<close>

text \<open>
  \<^verbatim>\<open>
  const MIN_THUMBNAIL_SIZE = 100
  const MAX_THUMBNAIL_SIZE = 320

  function clampThumbnailSize(value) {
    return Math.max(MIN_THUMBNAIL_SIZE, Math.min(MAX_THUMBNAIL_SIZE, value))
  }
  \<close>
  (App.jsx; utils/gallery.js has the same function over the constants module.)
\<close>

definition MIN_THUMBNAIL_SIZE :: jsnum where
  "MIN_THUMBNAIL_SIZE = Finite 100"

definition MAX_THUMBNAIL_SIZE :: jsnum where
  "MAX_THUMBNAIL_SIZE = Finite 320"

definition clampThumbnailSize :: "jsnum \<Rightarrow> jsnum" where
  "clampThumbnailSize v = Math_max MIN_THUMBNAIL_SIZE (Math_min MAX_THUMBNAIL_SIZE v)"

text \<open>The inclusive range from \<open>MIN_THUMBNAIL_SIZE\<close> to \<open>MAX_THUMBNAIL_SIZE\<close>.\<close>

fun in_size_range :: "jsnum \<Rightarrow> bool" where
  "in_size_range (Finite x) = (100 \<le> x \<and> x \<le> 320)"
| "in_size_range n = False"

text \<open>
  The hook \<open>useThumbnailSize\<close>. Its initial state:
  \<^verbatim>\<open>
    if (typeof window === 'undefined') { return DEFAULT_THUMBNAIL_SIZE }
    const storedValue = Number(window.localStorage.getItem(THUMBNAIL_SIZE_STORAGE_KEY))
    if (!Number.isFinite(storedValue)) { return DEFAULT_THUMBNAIL_SIZE }
    return clampThumbnailSize(Math.round(storedValue))
  \<close>
  \<open>getItem\<close> returns a string, or \<open>null\<close> when the key is absent; \<open>Number(null)\<close> is
  \<open>0\<close>, and \<open>Number\<close> of a string is the engine's string-to-number conversion, the
  parameter \<open>parse\<close>. The constants module is not among the sources, so the default
  size is the parameter \<open>dflt\<close> (App.jsx, which inlines the same initialiser, has 200).
\<close>

definition Number_of_item :: "(string \<Rightarrow> jsnum) \<Rightarrow> string option \<Rightarrow> jsnum" where
  "Number_of_item parse stored = (case stored of None \<Rightarrow> Finite 0 | Some s \<Rightarrow> parse s)"

definition initialThumbnailSize ::
  "jsnum \<Rightarrow> (string \<Rightarrow> jsnum) \<Rightarrow> bool \<Rightarrow> string option \<Rightarrow> jsnum" where
  "initialThumbnailSize dflt parse has_window stored =
     (if \<not> has_window then dflt
      else let storedValue = Number_of_item parse stored in
        if \<not> isFinite storedValue then dflt
        else clampThumbnailSize (Math_round storedValue))"

text \<open>
  The setter the hook exports, called with the range input's value (a string):
  \<^verbatim>\<open>setThumbnailSize: (value) => setThumbnailSize(clampThumbnailSize(Number(value)))\<close>
  It returns the new state.
\<close>

definition setThumbnailSize :: "(string \<Rightarrow> jsnum) \<Rightarrow> string \<Rightarrow> jsnum" where
  "setThumbnailSize parse v = clampThumbnailSize (parse v)"

text \<open>
  The hook persists the size: the active size is React state, the persisted size is the
  localStorage entry, written by an effect after the first render and after every render
  in which the size has changed:
  \<^verbatim>\<open>
  useEffect(() => {
    window.localStorage.setItem(THUMBNAIL_SIZE_STORAGE_KEY, String(thumbnailSize))
  }, [thumbnailSize])
  \<close>
  Effects run in the browser only. React keeps the state, and skips the effect, when the
  setter is given a value that is the same as the current one.
\<close>

record size_state =
  thumbnailSize :: jsnum
  storedSize :: "string option"

definition persistThumbnailSize :: "(real \<Rightarrow> string) \<Rightarrow> size_state \<Rightarrow> size_state" where
  "persistThumbnailSize nts st = st\<lparr>storedSize := Some (Number_toString nts (thumbnailSize st))\<rparr>"

definition useThumbnailSize_mount ::
  "jsnum \<Rightarrow> (string \<Rightarrow> jsnum) \<Rightarrow> (real \<Rightarrow> string) \<Rightarrow> bool \<Rightarrow> string option \<Rightarrow> size_state" where
  "useThumbnailSize_mount dflt parse nts has_window stored =
     (let st = \<lparr>thumbnailSize = initialThumbnailSize dflt parse has_window stored,
                 storedSize = stored\<rparr>
      in if has_window then persistThumbnailSize nts st else st)"

definition useThumbnailSize_set ::
  "(string \<Rightarrow> jsnum) \<Rightarrow> (real \<Rightarrow> string) \<Rightarrow> size_state \<Rightarrow> string \<Rightarrow> size_state" where
  "useThumbnailSize_set parse nts st v =
     (let n = setThumbnailSize parse v
      in if n = thumbnailSize st then st
         else persistThumbnailSize nts (st\<lparr>thumbnailSize := n\<rparr>))"

section \<open>Dropped paths\<close>

text \<open>
  \<^verbatim>\<open>
  export function getDroppedPaths(payload) {
    if (Array.isArray(payload)) {
      return payload.map((entry) => String(entry))
    }
    if (!payload || typeof payload !== 'object') {
      return []
    }
    if (Array.isArray(payload.paths)) {
      return payload.paths.map((entry) => String(entry))
    }
    return []
  }
  \<close>
  The result is a sum: \<open>Inl\<close> is a thrown error, \<open>Inr\<close> the returned list.
\<close>

definition getDroppedPaths :: "(real \<Rightarrow> string) \<Rightarrow> jsval \<Rightarrow> js_error + string list" where
  "getDroppedPaths nts payload =
     (if isArray payload then map_String nts (elements payload)
      else if \<not> truthy payload \<or> typeof payload \<noteq> ''object'' then Inr []
      else case js_get payload ''paths'' of
        Inl e \<Rightarrow> Inl e
      | Inr paths \<Rightarrow>
          if isArray paths then map_String nts (elements paths) else Inr [])"

section \<open>The gallery hook: scanning a folder\<close>

text \<open>
  \<^verbatim>\<open>
  export function formatImageCount(count) {
    const safeCount = Number.isFinite(count) ? Math.max(0, Math.floor(count)) : 0
    return `${safeCount} image${safeCount === 1 ? '' : 's'}`
  }
  \<close>
\<close>

definition formatImageCount :: "(real \<Rightarrow> string) \<Rightarrow> jsnum \<Rightarrow> string" where
  "formatImageCount nts count =
     (let safeCount = (if isFinite count then Math_max (Finite 0) (Math_floor count) else Finite 0)
      in Number_toString nts safeCount @ '' image'' @ (if safeCount = Finite 1 then [] else ''s''))"

text \<open>The \<open>length\<close> of an array, as a number.\<close>

definition js_length :: "jsval list \<Rightarrow> jsnum" where
  "js_length xs = Finite (of_nat (length xs))"

text \<open>
  The state of the hook \<open>useGallery\<close> (hooks/useGallery.js): the React state variables
  that \<open>loadGallery\<close> writes and the ref \<open>loadRunIdRef\<close>. A state setter takes effect
  in call order, so it is modelled as an update of the record.
\<close>

record gallery =
  items :: "jsval list"
  status :: string
  loading :: bool
  loadingText :: string
  error :: string
  thumbnailDataByPath :: jsval
  loadRunIdRef :: nat

text \<open>
  \<open>loadGallery\<close> is an async function with one suspension point, the
  \<open>await invoke('load_gallery', ...)\<close>. JavaScript runs each stretch between suspension
  points to completion, so the function is two atomic steps. The first runs from the call
  to the \<open>await\<close>:
  \<^verbatim>\<open>
      if (!hasTauriInvoke()) {
        setError('Tauri API unavailable. Start with `npm run tauri dev`.')
        return
      }
      const runId = loadRunIdRef.current + 1
      loadRunIdRef.current = runId
      setLoading(true)
      setLoadingText('Preparing thumbnails...')
      setError('')
      setThumbnailDataByPath({})
      setStatus(`Scanning ${folder}...`)
  \<close>
  It returns the run id the pending call carries (\<open>None\<close> when it returned early). Run
  ids count the scans started; they stay far below \<open>2^53\<close>, where adding one to a
  double is exact, and are modelled as natural numbers.
\<close>

definition loadGallery_call :: "bool \<Rightarrow> string \<Rightarrow> gallery \<Rightarrow> nat option \<times> gallery" where
  "loadGallery_call hasTauriInvoke folder g =
     (if \<not> hasTauriInvoke then
        (None, g\<lparr>gallery.error := ''Tauri API unavailable. Start with `npm run tauri dev`.''\<rparr>)
      else
        let runId = loadRunIdRef g + 1 in
        (Some runId,
         g\<lparr>loadRunIdRef := runId,
           gallery.loading := True,
           gallery.loadingText := ''Preparing thumbnails...'',
           gallery.error := [],
           gallery.thumbnailDataByPath := JObj [],
           gallery.status := ''Scanning '' @ folder @ ''...''\<rparr>))"

text \<open>
  The second step runs when the call settles, with the response (\<open>Inr\<close>) or the
  rejection (\<open>Inl\<close>):
  \<^verbatim>\<open>
      try {
        const response = await invoke('load_gallery', ...)
        if (runId !== loadRunIdRef.current) {
          return
        }
        const galleryItems = Array.isArray(response?.items) ? response.items : []
        const thumbnails =
          response?.thumbnails && typeof response.thumbnails === 'object'
            ? response.thumbnails
            : {}
        setItems(galleryItems)
        setThumbnailDataByPath(thumbnails)
        if (response?.cancelled) {
          setStatus(`Stopped. Loaded ${formatImageCount(galleryItems.length)} before cancel.`)
        } else {
          setStatus(`Loaded ${formatImageCount(galleryItems.length)}.`)
        }
      } catch (invokeError) {
        if (runId !== loadRunIdRef.current) {
          return
        }
        setItems([])
        setThumbnailDataByPath({})
        setStatus('Failed to load folder.')
        setError(String(invokeError))
      } finally {
        if (runId === loadRunIdRef.current) {
          setLoading(false)
          setLoadingText('Loading images...')
        }
      }
  \<close>
  Nothing after the \<open>await\<close> inside the \<open>try\<close> can throw (the reads use optional
  chaining), so the \<open>catch\<close> block runs exactly when the call rejects. Inside the
  \<open>catch\<close> block \<open>String(invokeError)\<close> can throw: then \<open>setError\<close> is not called, the
  \<open>finally\<close> block still runs, and the promise of \<open>loadGallery\<close> rejects with the
  TypeError. The step returns what was thrown (\<open>None\<close> when nothing was) and the new
  state.
\<close>

definition loadGallery_finally :: "nat \<Rightarrow> gallery \<Rightarrow> gallery" where
  "loadGallery_finally runId g =
     (if runId = loadRunIdRef g then
        g\<lparr>gallery.loading := False, gallery.loadingText := ''Loading images...''\<rparr>
      else g)"

definition loadGallery_resume ::
  "(real \<Rightarrow> string) \<Rightarrow> nat \<Rightarrow> jsval + jsval \<Rightarrow> gallery \<Rightarrow> js_error option \<times> gallery" where
  "loadGallery_resume nts runId outcome g =
     (case outcome of
        Inr response \<Rightarrow>
          if runId \<noteq> loadRunIdRef g then (None, loadGallery_finally runId g)
          else
            let galleryItems =
                  (if isArray (js_get_opt response ''items'')
                   then elements (js_get_opt response ''items'') else []);
                thumbnails =
                  (if truthy (js_get_opt response ''thumbnails'')
                      \<and> typeof (js_get_opt response ''thumbnails'') = ''object''
                   then js_get_opt response ''thumbnails'' else JObj []);
                g1 = g\<lparr>gallery.items := galleryItems, gallery.thumbnailDataByPath := thumbnails\<rparr>;
                g2 =
                  (if truthy (js_get_opt response ''cancelled'') then
                     g1\<lparr>gallery.status :=
                          ''Stopped. Loaded '' @ formatImageCount nts (js_length galleryItems)
                          @ '' before cancel.''\<rparr>
                   else
                     g1\<lparr>gallery.status :=
                          ''Loaded '' @ formatImageCount nts (js_length galleryItems) @ ''.''\<rparr>)
            in (None, loadGallery_finally runId g2)
      | Inl invokeError \<Rightarrow>
          if runId \<noteq> loadRunIdRef g then (None, loadGallery_finally runId g)
          else
            let g1 = g\<lparr>gallery.items := [],
                       gallery.thumbnailDataByPath := JObj [],
                       gallery.status := ''Failed to load folder.''\<rparr>
            in case js_String nts invokeError of
                 Inl e \<Rightarrow> (Some e, loadGallery_finally runId g1)
               | Inr text \<Rightarrow> (None, loadGallery_finally runId (g1\<lparr>gallery.error := text\<rparr>)))"

text \<open>
  What can happen to the hook over its lifetime, as far as \<open>loadGallery\<close> is concerned:
  a call of \<open>loadGallery\<close> (with what \<open>hasTauriInvoke()\<close> answers, and the folder), or
  the settling of the pending \<open>load_gallery\<close> call that carries a given run id. Any
  interleaving of scans is a list of such events.
\<close>

datatype gallery_event =
    LoadGallery bool string
  | LoadSettled nat "jsval + jsval"

fun gallery_step :: "(real \<Rightarrow> string) \<Rightarrow> gallery \<Rightarrow> gallery_event \<Rightarrow> gallery" where
  "gallery_step nts g (LoadGallery h folder) = snd (loadGallery_call h folder g)"
| "gallery_step nts g (LoadSettled runId outcome) = snd (loadGallery_resume nts runId outcome g)"

definition gallery_run :: "(real \<Rightarrow> string) \<Rightarrow> gallery_event list \<Rightarrow> gallery \<Rightarrow> gallery" where
  "gallery_run nts evs g = foldl (gallery_step nts) g evs"

text \<open>The run ids handed out along a list of events, in order.\<close>

fun run_ids :: "(real \<Rightarrow> string) \<Rightarrow> gallery \<Rightarrow> gallery_event list \<Rightarrow> nat list" where
  "run_ids nts g [] = []"
| "run_ids nts g (LoadGallery h folder # evs) =
     (case fst (loadGallery_call h folder g) of None \<Rightarrow> [] | Some r \<Rightarrow> [r])
     @ run_ids nts (gallery_step nts g (LoadGallery h folder)) evs"
| "run_ids nts g (LoadSettled r outcome # evs) =
     run_ids nts (gallery_step nts g (LoadSettled r outcome)) evs"

section \<open>Thumbnail hydration\<close>

text \<open>
  In App.jsx (and in the version of the hook that hydrates thumbnails one by one) the
  thumbnail map is filled after the scan by \<open>hydrateThumbnails\<close>. The state it shares
  with \<open>loadGallery\<close>: the React state variables and the ref \<open>hydrationRunIdRef\<close>. The
  thumbnail map starts as \<open>{}\<close> and is only replaced by \<open>{}\<close> or by a copy with one
  more string entry, so it is a map from keys (paths) to strings (data URLs).
\<close>

record app =
  items :: "jsval list"
  status :: string
  loading :: bool
  loadingText :: string
  error :: string
  thumbnailDataByPath :: "string \<rightharpoonup> string"
  hydrationRunIdRef :: nat

text \<open>
  The state updater of a successful load:
  \<^verbatim>\<open>
          setThumbnailDataByPath((prev) => {
            if (prev[item.path]) {
              return prev
            }
            return { ...prev, [item.path]: String(dataUrl) }
          })
  \<close>
  The key of \<open>prev[item.path]\<close> is the string of \<open>item.path\<close>. When the map has an
  entry for the key, \<open>prev[k]\<close> is that string, which is truthy unless empty. When it
  has none, \<open>prev[k]\<close> is what the object inherits from \<open>Object.prototype\<close>: a
  function, or for \<open>__proto__\<close> the prototype itself, both truthy, when the key names
  one of its properties, and \<open>undefined\<close> otherwise. Both string conversions can
  throw, the one of the key first and the one of \<open>dataUrl\<close> only when the entry is to
  be written; then the updater throws (\<open>Inl\<close>).
\<close>

definition Object_prototype_keys :: "string list" where
  "Object_prototype_keys =
     [''constructor'', ''hasOwnProperty'', ''isPrototypeOf'', ''propertyIsEnumerable'',
      ''toLocaleString'', ''toString'', ''valueOf'', ''__proto__'',
      ''__defineGetter__'', ''__defineSetter__'', ''__lookupGetter__'', ''__lookupSetter__'']"

definition entry_truthy :: "(string \<rightharpoonup> string) \<Rightarrow> string \<Rightarrow> bool" where
  "entry_truthy prev k =
     (case prev k of None \<Rightarrow> k \<in> set Object_prototype_keys | Some s \<Rightarrow> s \<noteq> [])"

definition setThumbnail ::
  "(real \<Rightarrow> string) \<Rightarrow> (string \<rightharpoonup> string) \<Rightarrow> jsval \<Rightarrow> jsval \<Rightarrow> js_error + (string \<rightharpoonup> string)" where
  "setThumbnail nts prev path dataUrl =
     (case js_String nts path of
        Inl e \<Rightarrow> Inl e
      | Inr k \<Rightarrow>
          if entry_truthy prev k then Inr prev
          else (case js_String nts dataUrl of
                  Inl e \<Rightarrow> Inl e
                | Inr text \<Rightarrow> Inr (prev(k \<mapsto> text))))"

text \<open>
  One call of \<open>hydrateThumbnails(galleryItems, runId)\<close> owns a cursor shared by its
  workers. A worker is either suspended at its \<open>await invoke('load_thumbnail', ...)\<close>,
  holding its local \<open>currentIndex\<close> and \<open>item\<close>, or has returned. Every statement that
  can throw is inside the worker's \<open>try\<close>, whose \<open>catch\<close> is empty, so a worker's
  promise never rejects. The calls of \<open>load_thumbnail\<close> issued so far are logged by
  index in \<open>invoked\<close>.
\<close>

datatype worker_state = Awaiting nat jsval | Returned

record pool =
  galleryItems :: "jsval list"
  runId :: nat
  cursor :: nat
  workers :: "worker_state list"
  invoked :: "nat list"

text \<open>
  A worker from the head of its loop to its next suspension or return; \<open>current\<close> is
  \<open>hydrationRunIdRef.current\<close>, which nothing changes during the stretch:
  \<^verbatim>\<open>
      while (cursor < galleryItems.length && runId === hydrationRunIdRef.current) {
        const currentIndex = cursor
        cursor += 1
        const item = galleryItems[currentIndex]
        try {
          const dataUrl = await invoke('load_thumbnail', {
            path: item.path,
            thumbnailSize: THUMBNAIL_SIZE,
          })
          ...
        } catch {
          // Keep going if one thumbnail fails.
        }
      }
  \<close>
  Reading \<open>item.path\<close> throws when the item is \<open>null\<close> or \<open>undefined\<close>; that is inside
  the \<open>try\<close>, before the call is made, and the loop goes on with the next item.
\<close>

function worker_loop :: "nat \<Rightarrow> pool \<Rightarrow> worker_state \<times> pool" where
  "worker_loop current p =
     (if cursor p < length (galleryItems p) \<and> runId p = current then
        let currentIndex = cursor p;
            p1 = p\<lparr>cursor := cursor p + 1\<rparr>;
            item = galleryItems p ! currentIndex
        in case js_get item ''path'' of
             Inl e \<Rightarrow> worker_loop current p1
           | Inr path \<Rightarrow> (Awaiting currentIndex item, p1\<lparr>invoked := invoked p1 @ [currentIndex]\<rparr>)
      else (Returned, p))"
  by pat_completeness auto
termination
  by (relation "measure (\<lambda>(current, p). length (galleryItems p) - cursor p)") auto

declare worker_loop.simps [simp del]

text \<open>
  \<^verbatim>\<open>
    const maxConcurrent = 6
    let cursor = 0
    ...
    const workerCount = Math.min(maxConcurrent, galleryItems.length)
    await Promise.all(Array.from({ length: workerCount }, () => worker()))
  \<close>
  \<open>Array.from\<close> calls \<open>worker()\<close> \<open>workerCount\<close> times in turn; each call runs to its
  first suspension (or returns) before the next one starts.
\<close>

fun spawn :: "nat \<Rightarrow> nat \<Rightarrow> pool \<Rightarrow> pool" where
  "spawn current 0 p = p"
| "spawn current (Suc n) p =
     (let (w, p') = worker_loop current p
      in spawn current n (p'\<lparr>workers := workers p' @ [w]\<rparr>))"

definition hydrateThumbnails :: "jsval list \<Rightarrow> nat \<Rightarrow> app \<Rightarrow> pool" where
  "hydrateThumbnails items0 rid a =
     (let maxConcurrent = 6;
          workerCount = min maxConcurrent (length items0)
      in spawn (hydrationRunIdRef a) workerCount
           \<lparr>galleryItems = items0, runId = rid, cursor = 0, workers = [], invoked = []\<rparr>)"

text \<open>\<open>Promise.all\<close> over the workers resolves once every worker has returned.\<close>

definition all_returned :: "pool \<Rightarrow> bool" where
  "all_returned p = list_all (\<lambda>w. w = Returned) (workers p)"

text \<open>
  Worker \<open>w\<close> resumes when its pending call settles, with the data URL (\<open>Inr\<close>) or the
  rejection (\<open>Inl\<close>), and runs to its next suspension or return:
  \<^verbatim>\<open>
          const dataUrl = await invoke('load_thumbnail', ...)
          if (runId !== hydrationRunIdRef.current) {
            return
          }
          setThumbnailDataByPath((prev) => { ... })
        } catch {
          // Keep going if one thumbnail fails.
        }
      }
  \<close>
  The updater reads \<open>item.path\<close> again. The read succeeded when the call was issued,
  so it cannot throw here; the model gives that branch the same continuation as any
  other throw inside the \<open>try\<close>. The call of the setter does not throw into the
  worker: React runs the updater when it renders, or at once with whatever it throws
  suppressed. So an updater that throws stores nothing, and the worker goes on. A
  settlement for a worker that is not suspended does nothing.
\<close>

definition worker_continue :: "nat \<Rightarrow> pool \<times> app \<Rightarrow> pool \<times> app" where
  "worker_continue w c =
     (let (p, a) = c;
          (ws, p') = worker_loop (hydrationRunIdRef a) p
      in (p'\<lparr>workers := (workers p')[w := ws]\<rparr>, a))"

definition worker_resume ::
  "(real \<Rightarrow> string) \<Rightarrow> nat \<Rightarrow> jsval + jsval \<Rightarrow> pool \<times> app \<Rightarrow> pool \<times> app" where
  "worker_resume nts w outcome c =
     (let (p, a) = c in
      if w < length (workers p) then
        (case workers p ! w of
           Returned \<Rightarrow> (p, a)
         | Awaiting currentIndex item \<Rightarrow>
             (case outcome of
                Inl err \<Rightarrow> worker_continue w (p, a)
              | Inr dataUrl \<Rightarrow>
                  if runId p \<noteq> hydrationRunIdRef a then
                    (p\<lparr>workers := (workers p)[w := Returned]\<rparr>, a)
                  else
                    (case js_get item ''path'' of
                       Inl e \<Rightarrow> worker_continue w (p, a)
                     | Inr path \<Rightarrow>
                         (case setThumbnail nts (app.thumbnailDataByPath a) path dataUrl of
                            Inl e \<Rightarrow> worker_continue w (p, a)
                          | Inr next \<Rightarrow>
                              worker_continue w (p, a\<lparr>app.thumbnailDataByPath := next\<rparr>)))))
      else (p, a))"

text \<open>
  \<open>loadGallery\<close> of App.jsx, from the call to its \<open>await\<close>. It is the only code that
  writes \<open>hydrationRunIdRef\<close>:
  \<^verbatim>\<open>
    if (!hasTauriInvoke()) {
      setError('Tauri API unavailable. Start with `npm run tauri dev`.')
      return
    }
    setLoading(true)
    setLoadingText('Preparing thumbnails...')
    setError('')
    hydrationRunIdRef.current += 1
    setThumbnailDataByPath({})
    setStatus(`Scanning ${folder}...`)
  \<close>
\<close>

definition loadGallery_App_call :: "bool \<Rightarrow> string \<Rightarrow> app \<Rightarrow> app" where
  "loadGallery_App_call hasTauriInvoke folder a =
     (if \<not> hasTauriInvoke then
        a\<lparr>app.error := ''Tauri API unavailable. Start with `npm run tauri dev`.''\<rparr>
      else
        a\<lparr>app.loading := True,
          app.loadingText := ''Preparing thumbnails...'',
          app.error := [],
          hydrationRunIdRef := hydrationRunIdRef a + 1,
          app.thumbnailDataByPath := Map.empty,
          app.status := ''Scanning '' @ folder @ ''...''\<rparr>)"

text \<open>
  And from the settling of \<open>load_gallery\<close> to the end; on a response it starts the
  hydration of the items under the current run id, without awaiting it. As in the hook,
  \<open>String(invokeError)\<close> can throw in the \<open>catch\<close> block; the step returns what was
  thrown, the new state and the hydration it started:
  \<^verbatim>\<open>
      const galleryItems = Array.isArray(response?.items) ? response.items : []
      setItems(galleryItems)
      if (response?.cancelled) {
        setStatus(`Stopped. Loaded ${formatImageCount(galleryItems.length)} before cancel.`)
      } else {
        setStatus(`Loaded ${formatImageCount(galleryItems.length)}.`)
      }
      hydrateThumbnails(galleryItems, hydrationRunIdRef.current)
    } catch (invokeError) {
      setItems([])
      setStatus('Failed to load folder.')
      setError(String(invokeError))
    } finally {
      setLoading(false)
      setLoadingText('Loading images...')
    }
  \<close>
\<close>

definition loadGallery_App_resume ::
  "(real \<Rightarrow> string) \<Rightarrow> jsval + jsval \<Rightarrow> app \<Rightarrow> js_error option \<times> app \<times> pool option" where
  "loadGallery_App_resume nts outcome a =
     (case outcome of
        Inr response \<Rightarrow>
          let galleryItems =
                (if isArray (js_get_opt response ''items'')
                 then elements (js_get_opt response ''items'') else []);
              a1 = a\<lparr>app.items := galleryItems,
                     app.status :=
                       (if truthy (js_get_opt response ''cancelled'') then
                          ''Stopped. Loaded '' @ formatImageCount nts (js_length galleryItems)
                          @ '' before cancel.''
                        else ''Loaded '' @ formatImageCount nts (js_length galleryItems) @ ''.'')\<rparr>;
              p = hydrateThumbnails galleryItems (hydrationRunIdRef a1) a1
          in (None, a1\<lparr>app.loading := False, app.loadingText := ''Loading images...''\<rparr>, Some p)
      | Inl invokeError \<Rightarrow>
          let a1 = a\<lparr>app.items := [], app.status := ''Failed to load folder.''\<rparr>
          in case js_String nts invokeError of
               Inl e \<Rightarrow>
                 (Some e, a1\<lparr>app.loading := False, app.loadingText := ''Loading images...''\<rparr>, None)
             | Inr text \<Rightarrow>
                 (None,
                  a1\<lparr>app.error := text, app.loading := False,
                     app.loadingText := ''Loading images...''\<rparr>,
                  None))"

text \<open>
  What can happen while one hydration is in flight: the pending call of one of its
  workers settles, or \<open>loadGallery\<close> is called again. Any interleaving is a list of such
  events.
\<close>

datatype hydration_event =
    ThumbnailSettled nat "jsval + jsval"
  | NewScan bool string

fun hydration_step ::
  "(real \<Rightarrow> string) \<Rightarrow> pool \<times> app \<Rightarrow> hydration_event \<Rightarrow> pool \<times> app" where
  "hydration_step nts c (ThumbnailSettled w outcome) = worker_resume nts w outcome c"
| "hydration_step nts c (NewScan h folder) = (fst c, loadGallery_App_call h folder (snd c))"

definition hydration_run ::
  "(real \<Rightarrow> string) \<Rightarrow> hydration_event list \<Rightarrow> pool \<times> app \<Rightarrow> pool \<times> app" where
  "hydration_run nts evs c = foldl (hydration_step nts) c evs"

text \<open>
  A batch driven to its end. While some worker is suspended, one of the suspended workers
  is chosen by an arbitrary scheduler \<open>pick\<close> (the first one if \<open>pick\<close> names none of
  them) and its call settles with the outcome \<open>load\<close> assigns to its index. The
  recursion ends when no worker is suspended.
\<close>

definition suspended :: "pool \<Rightarrow> nat list" where
  "suspended p = filter (\<lambda>w. workers p ! w \<noteq> Returned) [0..<length (workers p)]"

definition choose_worker :: "(nat list \<Rightarrow> nat) \<Rightarrow> nat list \<Rightarrow> nat" where
  "choose_worker pick ws = (if pick ws \<in> set ws then pick ws else hd ws)"

definition index_of :: "worker_state \<Rightarrow> nat" where
  "index_of w = (case w of Awaiting i item \<Rightarrow> i | Returned \<Rightarrow> 0)"

function run_batch ::
  "(real \<Rightarrow> string) \<Rightarrow> (nat list \<Rightarrow> nat) \<Rightarrow> (nat \<Rightarrow> jsval + jsval) \<Rightarrow> pool \<times> app \<Rightarrow> pool \<times> app" where
  "run_batch nts pick load c =
     (if suspended (fst c) = [] then c
      else
        let w = choose_worker pick (suspended (fst c));
            outcome = load (index_of (workers (fst c) ! w))
        in run_batch nts pick load (worker_resume nts w outcome c))"
  by pat_completeness auto

section \<open>Cache key\<close>


section \<open>Invariants of a hydration\<close>

text \<open>
  The notions the proofs about a hydration use. An item has a path when reading its
  \<open>path\<close> property does not throw. A suspended worker holds an index below the cursor
  and the item at that index, whose path could be read. In every reachable pool the
  cursor is within the list, the calls issued are exactly the indices below the cursor
  whose item has a path, in order, and every worker is as described.
\<close>

definition has_path :: "jsval \<Rightarrow> bool" where
  "has_path item = (case js_get item ''path'' of Inl e \<Rightarrow> False | Inr v \<Rightarrow> True)"

definition worker_ok :: "pool \<Rightarrow> worker_state \<Rightarrow> bool" where
  "worker_ok p w = (case w of
      Awaiting i item \<Rightarrow> i < cursor p \<and> item = galleryItems p ! i \<and> has_path item
    | Returned \<Rightarrow> True)"

definition pool_inv :: "pool \<Rightarrow> bool" where
  "pool_inv p \<longleftrightarrow>
     cursor p \<le> length (galleryItems p)
     \<and> invoked p = filter (\<lambda>i. has_path (galleryItems p ! i)) [0..<cursor p]
     \<and> list_all (worker_ok p) (workers p)"

text \<open>
  While the run id of a batch is the current one, a worker returns only once the cursor
  has reached the end of the list.
\<close>

definition batch_inv :: "jsval list \<Rightarrow> nat \<Rightarrow> nat \<Rightarrow> pool \<times> app \<Rightarrow> bool" where
  "batch_inv items0 cur n c \<longleftrightarrow>
     pool_inv (fst c) \<and> galleryItems (fst c) = items0 \<and> runId (fst c) = cur
     \<and> hydrationRunIdRef (snd c) = cur \<and> length (workers (fst c)) = n
     \<and> (Returned \<in> set (workers (fst c)) \<longrightarrow> cursor (fst c) = length items0)"

text \<open>The items not yet taken plus the suspended workers: it bounds the work left.\<close>

definition batch_measure :: "pool \<Rightarrow> nat" where
  "batch_measure p = (length (galleryItems p) - cursor p) + length (filter (\<lambda>w. w \<noteq> Returned) (workers p))"

section \<open>Example states\<close>

text \<open>
  A freshly mounted hook and app, a response of three items (one of them \<open>null\<close>) that
  was cancelled, a list of seven items, a list that names one path twice, a backend
  that fails on the first item, and the object \<open>{"toString": 1}\<close>, on which \<open>String\<close>
  throws.
\<close>

definition example_gallery :: gallery where
  "example_gallery = \<lparr>gallery.items = [], gallery.status = [], gallery.loading = False,
      gallery.loadingText = ''Loading images...'', gallery.error = [],
      gallery.thumbnailDataByPath = JObj [], loadRunIdRef = 0\<rparr>"

definition example_app :: app where
  "example_app = \<lparr>app.items = [], app.status = [], app.loading = False,
      app.loadingText = ''Loading images...'', app.error = [],
      app.thumbnailDataByPath = Map.empty, hydrationRunIdRef = 1\<rparr>"

definition example_items :: "jsval list" where
  "example_items =
     [JObj [(''path'', JStr ''/p/a.png''), (''name'', JStr ''a.png'')],
      JNull,
      JObj [(''path'', JStr ''/p/b.png''), (''name'', JStr ''b.png'')]]"

definition example_response :: jsval where
  "example_response = JObj [(''items'', JArr example_items), (''cancelled'', JBool True)]"

definition twice_scanned :: gallery where
  "twice_scanned =
     snd (loadGallery_call True ''/q'' (snd (loadGallery_call True ''/p'' example_gallery)))"

definition seven_items :: "jsval list" where
  "seven_items = map (\<lambda>n. JObj [(''path'', JStr (''/p/'' @ decimal n))]) [0..<7]"

definition duplicate_items :: "jsval list" where
  "duplicate_items = [JObj [(''path'', JStr ''/p/a.png'')], JObj [(''path'', JStr ''/p/a.png'')]]"

definition example_load :: "nat \<Rightarrow> jsval + jsval" where
  "example_load i = (if i = 0 then Inl (JStr ''decode error'') else Inr (JStr ''data:b''))"

definition example_thumbnails :: "string \<rightharpoonup> string" where
  "example_thumbnails = Map.empty(''/p/a.png'' \<mapsto> ''data:old'')"

definition unprintable :: jsval where
  "unprintable = JObj [(''toString'', JNum (Finite 1))]"

section \<open>Termination of a batch\<close>

text \<open>
  Every resumption of a suspended worker either returns the worker or moves the cursor
  forward, so the number of items not yet taken plus the number of suspended workers
  decreases.
\<close>

lemma worker_loop_props:
  "worker_loop cur p = (ws, p') \<Longrightarrow>
     galleryItems p' = galleryItems p \<and> runId p' = runId p \<and> workers p' = workers p
     \<and> cursor p \<le> cursor p'
     \<and> (ws \<noteq> Returned \<longrightarrow> cursor p < cursor p' \<and> cursor p < length (galleryItems p))"
proof (induction cur p arbitrary: ws p' rule: worker_loop.induct)
  case (1 current p)
  show ?case
  proof (cases "cursor p < length (galleryItems p) \<and> runId p = current")
    case False
    with "1.prems" show ?thesis by (simp add: worker_loop.simps)
  next
    case True
    show ?thesis
    proof (cases "js_get (galleryItems p ! cursor p) ''path''")
      case (Inl e)
      with True "1.prems" have "worker_loop current (p\<lparr>cursor := cursor p + 1\<rparr>) = (ws, p')"
        by (simp add: worker_loop.simps [of current p] Let_def)
      from "1.IH" [OF True refl refl refl Inl this] True show ?thesis by auto
    next
      case (Inr v)
      with True "1.prems" show ?thesis
        by (auto simp: worker_loop.simps [of current p] Let_def)
    qed
  qed
qed

lemma filter_update_length:
  "i < length xs \<Longrightarrow>
   length (filter P (xs[i := y])) + (if P (xs ! i) then 1 else 0)
     = length (filter P xs) + (if P y then 1 else 0)"
proof (induction xs arbitrary: i)
  case Nil
  then show ?case by simp
next
  case (Cons x xs)
  show ?case
  proof (cases i)
    case 0
    then show ?thesis by simp
  next
    case (Suc j)
    with Cons.prems have "j < length xs" by simp
    from Cons.IH [OF this] Suc show ?thesis by simp
  qed
qed

lemma filter_nth_length:
  "length (filter (\<lambda>i. P (xs ! i)) [0..<length xs]) = length (filter P xs)"
proof (induction xs rule: rev_induct)
  case Nil
  show ?case by simp
next
  case (snoc x xs)
  have "filter (\<lambda>i. P ((xs @ [x]) ! i)) [0..<length xs] = filter (\<lambda>i. P (xs ! i)) [0..<length xs]"
    by (rule filter_cong) (auto simp: nth_append)
  with snoc show ?case by simp
qed

lemma suspended_length: "length (suspended p) = length (filter (\<lambda>w. w \<noteq> Returned) (workers p))"
  unfolding suspended_def by (rule filter_nth_length)

lemma suspended_mem: "w \<in> set (suspended p) \<longleftrightarrow> w < length (workers p) \<and> workers p ! w \<noteq> Returned"
  by (auto simp: suspended_def)

lemma choose_worker_mem: "ws \<noteq> [] \<Longrightarrow> choose_worker pick ws \<in> set ws"
  by (simp add: choose_worker_def)

lemma worker_continue_measure:
  assumes w: "w < length (workers p)" and s: "workers p ! w \<noteq> Returned"
  shows "batch_measure (fst (worker_continue w (p, a))) < batch_measure p"
proof -
  obtain ws p' where wl: "worker_loop (hydrationRunIdRef a) p = (ws, p')"
    by (cases "worker_loop (hydrationRunIdRef a) p")
  note props = worker_loop_props [OF wl]
  have res: "fst (worker_continue w (p, a)) = p'\<lparr>workers := (workers p)[w := ws]\<rparr>"
    using wl props by (simp add: worker_continue_def)
  from filter_update_length [OF w, of "\<lambda>w. w \<noteq> Returned" ws] s
  have cnt: "length (filter (\<lambda>w. w \<noteq> Returned) ((workers p)[w := ws])) + 1
             = length (filter (\<lambda>w. w \<noteq> Returned) (workers p)) + (if ws \<noteq> Returned then 1 else 0)"
    by simp
  have bm: "batch_measure (p'\<lparr>workers := (workers p)[w := ws]\<rparr>)
            = (length (galleryItems p) - cursor p')
              + length (filter (\<lambda>w. w \<noteq> Returned) ((workers p)[w := ws]))"
    using props by (simp add: batch_measure_def)
  have bp: "batch_measure p
            = (length (galleryItems p) - cursor p)
              + length (filter (\<lambda>w. w \<noteq> Returned) (workers p))"
    by (simp add: batch_measure_def)
  have c1: "cursor p \<le> cursor p'"
    and c2: "ws \<noteq> Returned \<Longrightarrow> cursor p < cursor p' \<and> cursor p < length (galleryItems p)"
    using props by auto
  have "(length (galleryItems p) - cursor p')
          + length (filter (\<lambda>w. w \<noteq> Returned) ((workers p)[w := ws]))
        < (length (galleryItems p) - cursor p)
          + length (filter (\<lambda>w. w \<noteq> Returned) (workers p))"
  proof (cases "ws = Returned")
    case True
    with cnt c1 show ?thesis by simp
  next
    case False
    with cnt c2 [OF False] show ?thesis by simp arith
  qed
  then show ?thesis unfolding res bm bp .
qed

lemma worker_resume_measure:
  assumes w: "w < length (workers p)" and s: "workers p ! w \<noteq> Returned"
  shows "batch_measure (fst (worker_resume nts w outcome (p, a))) < batch_measure p"
proof -
  from s obtain i item where aw: "workers p ! w = Awaiting i item"
    by (cases "workers p ! w") auto
  from filter_update_length [OF w, of "\<lambda>w. w \<noteq> Returned" Returned] s
  have ret: "batch_measure (p\<lparr>workers := (workers p)[w := Returned]\<rparr>) < batch_measure p"
    by (simp add: batch_measure_def)
  show ?thesis
    using w aw ret worker_continue_measure [OF w s]
    by (auto simp: worker_resume_def split: sum.splits)
qed

termination run_batch
proof (relation "measure (\<lambda>(nts, pick, load, c). batch_measure (fst c))")
  show "wf (measure (\<lambda>(nts, pick, load, c). batch_measure (fst c)))" by simp
next
  fix nts :: "real \<Rightarrow> string" and pick :: "nat list \<Rightarrow> nat" and load :: "nat \<Rightarrow> jsval + jsval"
    and c :: "pool \<times> app" and w outcome
  assume ne: "suspended (fst c) \<noteq> []"
    and wdef: "w = choose_worker pick (suspended (fst c))"
  from choose_worker_mem [OF ne] wdef have "w \<in> set (suspended (fst c))" by simp
  then have "w < length (workers (fst c))" "workers (fst c) ! w \<noteq> Returned"
    by (simp_all add: suspended_mem)
  from worker_resume_measure [OF this, of nts outcome "snd c"]
  show "((nts, pick, load, worker_resume nts w outcome c), nts, pick, load, c)
        \<in> measure (\<lambda>(nts, pick, load, c). batch_measure (fst c))"
    by simp
qed

declare run_batch.simps [simp del]

section \<open>Thumbnail size stays in range\<close>

lemma clampThumbnailSize_range: "n \<noteq> NaN \<Longrightarrow> in_size_range (clampThumbnailSize n)"
  by (cases n) (auto simp: clampThumbnailSize_def MIN_THUMBNAIL_SIZE_def MAX_THUMBNAIL_SIZE_def)

lemma clampThumbnailSize_id: "in_size_range n \<Longrightarrow> clampThumbnailSize n = n"
  by (cases n) (auto simp: clampThumbnailSize_def MIN_THUMBNAIL_SIZE_def MAX_THUMBNAIL_SIZE_def)

lemma Math_round_finite: "isFinite n \<Longrightarrow> Math_round n \<noteq> NaN"
  by (cases n) auto

lemma initialThumbnailSize_range:
  "in_size_range dflt \<Longrightarrow> in_size_range (initialThumbnailSize dflt parse has_window stored)"
  by (auto simp: initialThumbnailSize_def Let_def clampThumbnailSize_range Math_round_finite)

text \<open>
  The size the hook holds and the size it has written to localStorage, over the life of
  the hook: after mounting and after any number of calls of the setter.
\<close>

lemma useThumbnailSize_mount_inv:
  "in_size_range dflt \<Longrightarrow>
     in_size_range (thumbnailSize (useThumbnailSize_mount dflt parse nts has_window stored))
     \<and> (has_window \<longrightarrow>
          storedSize (useThumbnailSize_mount dflt parse nts has_window stored)
            = Some (Number_toString nts
                (thumbnailSize (useThumbnailSize_mount dflt parse nts has_window stored))))"
  by (simp add: useThumbnailSize_mount_def persistThumbnailSize_def Let_def
      initialThumbnailSize_range)

lemma useThumbnailSize_set_inv:
  assumes "in_size_range (thumbnailSize st)"
    and "has_window \<longrightarrow> storedSize st = Some (Number_toString nts (thumbnailSize st))"
    and "parse v \<noteq> NaN"
  shows "in_size_range (thumbnailSize (useThumbnailSize_set parse nts st v))
     \<and> (has_window \<longrightarrow>
          storedSize (useThumbnailSize_set parse nts st v)
            = Some (Number_toString nts (thumbnailSize (useThumbnailSize_set parse nts st v))))"
  using assms
  by (simp add: useThumbnailSize_set_def persistThumbnailSize_def Let_def setThumbnailSize_def
      clampThumbnailSize_range)

lemma useThumbnailSize_run_inv:
  assumes "in_size_range (thumbnailSize st)"
    and "has_window \<longrightarrow> storedSize st = Some (Number_toString nts (thumbnailSize st))"
    and "\<forall>v \<in> set vs. parse v \<noteq> NaN"
  shows "in_size_range (thumbnailSize (foldl (useThumbnailSize_set parse nts) st vs))
     \<and> (has_window \<longrightarrow>
          storedSize (foldl (useThumbnailSize_set parse nts) st vs)
            = Some (Number_toString nts
                (thumbnailSize (foldl (useThumbnailSize_set parse nts) st vs))))"
  using assms
proof (induction vs arbitrary: st)
  case Nil
  then show ?case by simp
next
  case (Cons v vs)
  from Cons.prems have pv: "parse v \<noteq> NaN" and rest: "\<forall>v \<in> set vs. parse v \<noteq> NaN"
    by simp_all
  from useThumbnailSize_set_inv [where st = st and has_window = has_window and nts = nts
      and parse = parse and v = v] Cons.prems(1) Cons.prems(2) pv
  have "in_size_range (thumbnailSize (useThumbnailSize_set parse nts st v))"
    and "has_window \<longrightarrow>
          storedSize (useThumbnailSize_set parse nts st v)
            = Some (Number_toString nts (thumbnailSize (useThumbnailSize_set parse nts st v)))"
    by simp_all
  from Cons.IH [OF this rest] show ?case by simp
qed

text \<open>
  C8, as amended. For every number other than NaN (the infinities included)
  \<open>clampThumbnailSize\<close> returns a value between 100 and 320, and it is the identity on
  that range. The initial size, read from localStorage, is in range whenever the default
  is: a stored value that is not finite gives the default, any other is rounded and
  clamped. The setter adopts the clamp of \<open>Number(value)\<close>, which is in range
  whenever \<open>Number(value)\<close> is not NaN. So with a default in range and setter values
  that convert to a number, as the values of a range input do, the active size is in
  range after mounting and after every call of the setter, and in the browser the
  persisted size is the rendering of the active one.
\<close>

theorem thumbnail_size_in_range:
  "(n \<noteq> NaN \<longrightarrow> in_size_range (clampThumbnailSize n))
   \<and> (in_size_range n \<longrightarrow> clampThumbnailSize n = n)
   \<and> (in_size_range dflt \<longrightarrow> in_size_range (initialThumbnailSize dflt parse has_window stored))
   \<and> setThumbnailSize parse v = clampThumbnailSize (parse v)
   \<and> (parse v \<noteq> NaN \<longrightarrow> in_size_range (setThumbnailSize parse v))
   \<and> (in_size_range dflt \<and> (\<forall>v \<in> set vs. parse v \<noteq> NaN) \<longrightarrow>
        (let st = foldl (useThumbnailSize_set parse nts)
                    (useThumbnailSize_mount dflt parse nts has_window stored) vs
         in in_size_range (thumbnailSize st)
            \<and> (has_window \<longrightarrow>
                 storedSize st = Some (Number_toString nts (thumbnailSize st)))))"
proof -
  have "in_size_range (thumbnailSize (foldl (useThumbnailSize_set parse nts)
            (useThumbnailSize_mount dflt parse nts has_window stored) vs))
        \<and> (has_window \<longrightarrow>
             storedSize (foldl (useThumbnailSize_set parse nts)
                 (useThumbnailSize_mount dflt parse nts has_window stored) vs)
             = Some (Number_toString nts (thumbnailSize (foldl (useThumbnailSize_set parse nts)
                 (useThumbnailSize_mount dflt parse nts has_window stored) vs))))"
    if d: "in_size_range dflt" and v: "\<forall>v \<in> set vs. parse v \<noteq> NaN"
  proof -
    note m = useThumbnailSize_mount_inv [OF d, of parse nts has_window stored]
    from m have m1: "in_size_range
        (thumbnailSize (useThumbnailSize_mount dflt parse nts has_window stored))"
      and m2: "has_window \<longrightarrow>
          storedSize (useThumbnailSize_mount dflt parse nts has_window stored)
            = Some (Number_toString nts
                (thumbnailSize (useThumbnailSize_mount dflt parse nts has_window stored)))"
      by simp_all
    from useThumbnailSize_run_inv [where has_window = has_window and nts = nts
        and parse = parse and vs = vs
        and st = "useThumbnailSize_mount dflt parse nts has_window stored"] m1 m2 v
    show ?thesis by blast
  qed
  then show ?thesis
    by (simp add: clampThumbnailSize_range clampThumbnailSize_id initialThumbnailSize_range
        setThumbnailSize_def Let_def)
qed

text \<open>
  An instance: 500 is clamped to 320, 150 is kept, a stored \<open>317.6\<close> is adopted as 318
  and written back as \<open>318\<close>; the slider values \<open>250\<close>, \<open>250\<close> and \<open>317.6\<close> then leave
  the size 317.6 active and \<open>317.6\<close> persisted. The two conversions are given on the
  values used.
\<close>

theorem thumbnail_size_in_range_witness:
  "Finite 150 \<noteq> NaN \<and> in_size_range (Finite 150) \<and> clampThumbnailSize (Finite 150) = Finite 150
   \<and> clampThumbnailSize (Finite 500) = Finite 320
   \<and> in_size_range (Finite 200)
   \<and> initialThumbnailSize (Finite 200)
        (\<lambda>s. if s = ''317.6'' then Finite 317.6 else if s = ''250'' then Finite 250 else NaN)
        True (Some ''317.6'') = Finite 318
   \<and> useThumbnailSize_mount (Finite 200)
        (\<lambda>s. if s = ''317.6'' then Finite 317.6 else if s = ''250'' then Finite 250 else NaN)
        (\<lambda>x. if x = 317.6 then ''317.6'' else integer_toString x)
        True (Some ''317.6'')
      = \<lparr>thumbnailSize = Finite 318, storedSize = Some ''318''\<rparr>
   \<and> foldl (useThumbnailSize_set
          (\<lambda>s. if s = ''317.6'' then Finite 317.6 else if s = ''250'' then Finite 250 else NaN)
          (\<lambda>x. if x = 317.6 then ''317.6'' else integer_toString x))
        (useThumbnailSize_mount (Finite 200)
          (\<lambda>s. if s = ''317.6'' then Finite 317.6 else if s = ''250'' then Finite 250 else NaN)
          (\<lambda>x. if x = 317.6 then ''317.6'' else integer_toString x)
          True (Some ''317.6''))
        [''250'', ''250'', ''317.6'']
      = \<lparr>thumbnailSize = Finite 317.6, storedSize = Some ''317.6''\<rparr>"
proof -
  let ?parse = "\<lambda>s. if s = ''317.6'' then Finite 317.6 else if s = ''250'' then Finite 250 else NaN"
  let ?nts = "\<lambda>x::real. if x = 317.6 then ''317.6'' else integer_toString x"
  have v: "\<forall>v \<in> set [''250'', ''250'', ''317.6'']. ?parse v \<noteq> NaN" by simp
  have d: "in_size_range (Finite 200)" by simp
  have p: "?parse ''250'' \<noteq> NaN" by simp
  note t = thumbnail_size_in_range [of "Finite 150" "Finite 200" ?parse True "Some ''317.6''"
      "''250''" "[''250'', ''250'', ''317.6'']" ?nts]
  from t d v have "in_size_range (thumbnailSize (foldl (useThumbnailSize_set ?parse ?nts)
      (useThumbnailSize_mount (Finite 200) ?parse ?nts True (Some ''317.6''))
      [''250'', ''250'', ''317.6'']))"
    by (simp only: Let_def)
  moreover have "useThumbnailSize_mount (Finite 200) ?parse ?nts True (Some ''317.6'')
      = \<lparr>thumbnailSize = Finite 318, storedSize = Some ''318''\<rparr>"
    by (simp add: useThumbnailSize_mount_def persistThumbnailSize_def initialThumbnailSize_def
        Number_of_item_def clampThumbnailSize_def MIN_THUMBNAIL_SIZE_def MAX_THUMBNAIL_SIZE_def
        integer_toString_def decimal.simps digit_def Let_def)
  moreover have "foldl (useThumbnailSize_set ?parse ?nts)
        \<lparr>thumbnailSize = Finite 318, storedSize = Some ''318''\<rparr> [''250'', ''250'', ''317.6'']
      = \<lparr>thumbnailSize = Finite 317.6, storedSize = Some ''317.6''\<rparr>"
    by (simp add: useThumbnailSize_set_def persistThumbnailSize_def setThumbnailSize_def
        clampThumbnailSize_def MIN_THUMBNAIL_SIZE_def MAX_THUMBNAIL_SIZE_def
        integer_toString_def decimal.simps digit_def Let_def)
  ultimately show ?thesis
    by (simp add: clampThumbnailSize_def MIN_THUMBNAIL_SIZE_def MAX_THUMBNAIL_SIZE_def
        initialThumbnailSize_def Number_of_item_def)
qed

text \<open>
  C8 as stated fails at NaN, which is a number: \<open>Math.min(320, NaN)\<close> and
  \<open>Math.max(100, NaN)\<close> are NaN, so the clamp returns NaN.
\<close>

theorem clampThumbnailSize_NaN_counterexample:
  "clampThumbnailSize NaN = NaN \<and> \<not> in_size_range (clampThumbnailSize NaN)"
  by (simp add: clampThumbnailSize_def MIN_THUMBNAIL_SIZE_def MAX_THUMBNAIL_SIZE_def)

section \<open>Dropped paths\<close>

lemma isArray_iff: "isArray v \<longleftrightarrow> (\<exists>xs. v = JArr xs)"
  by (cases v) auto

lemma js_error_TypeError: "(e :: js_error) = TypeError"
  by (cases e) simp

lemma collect_Inr_iff: "collect rs = Inr ys \<longleftrightarrow> rs = map Inr ys"
proof (induction rs arbitrary: ys rule: collect.induct)
  case 1
  show ?case by auto
next
  case (2 e rs)
  show ?case by auto
next
  case (3 x rs)
  show ?case
  proof (cases "collect rs")
    case (Inl e)
    with "3.IH" have "\<And>zs. rs \<noteq> map Inr zs" by simp
    with Inl show ?thesis by (cases ys) auto
  next
    case (Inr zs)
    with "3.IH" [of zs] have "rs = map Inr zs" by simp
    with Inr show ?thesis by (cases ys) auto
  qed
qed

lemma collect_Inl_iff: "(\<exists>e. collect rs = Inl e) \<longleftrightarrow> (\<exists>r \<in> set rs. isl r)"
  by (induction rs rule: collect.induct) (auto split: sum.splits)

lemma js_String_printable: "(\<exists>text. js_String nts v = Inr text) \<longleftrightarrow> printable v"
proof (induction v)
  case (JArr xs)
  let ?f = "\<lambda>x. if x = JNull \<or> x = JUndefined then Inr [] else js_String nts x"
  have "(\<exists>e. collect (map ?f xs) = Inl e) \<longleftrightarrow> (\<exists>x \<in> set xs. \<not> printable x)"
  proof -
    have "isl (?f x) \<longleftrightarrow> \<not> printable x" if "x \<in> set xs" for x
    proof (cases "x = JNull \<or> x = JUndefined")
      case True
      then show ?thesis by auto
    next
      case False
      from JArr [OF that] have "isl (js_String nts x) \<longleftrightarrow> \<not> printable x"
        by (cases "js_String nts x") auto
      with False show ?thesis by simp
    qed
    then have h: "(\<exists>x \<in> set xs. isl (?f x)) \<longleftrightarrow> (\<exists>x \<in> set xs. \<not> printable x)"
      by blast
    have "(\<exists>r \<in> set (map ?f xs). isl r) \<longleftrightarrow> (\<exists>x \<in> set xs. isl (?f x))"
      unfolding set_map by blast
    also note h
    finally show ?thesis unfolding collect_Inl_iff .
  qed
  then show ?case
    by (cases "collect (map ?f xs)") (auto simp: list_all_iff)
qed auto

lemma map_String_Inr_iff:
  "map_String nts xs = Inr ys \<longleftrightarrow> list_all2 (\<lambda>x y. js_String nts x = Inr y) xs ys"
  unfolding map_String_def collect_Inr_iff
  by (induction xs arbitrary: ys) (auto simp: list_all2_Cons1)

lemma map_String_printable:
  "list_all printable xs \<Longrightarrow> \<exists>ys. map_String nts xs = Inr ys"
  "\<not> list_all printable xs \<Longrightarrow> map_String nts xs = Inl TypeError"
proof -
  have "isl (js_String nts x) \<longleftrightarrow> \<not> printable x" for x
    using js_String_printable [of nts x] by (cases "js_String nts x") auto
  then have iff: "(\<exists>e. map_String nts xs = Inl e) \<longleftrightarrow> \<not> list_all printable xs"
    unfolding map_String_def collect_Inl_iff by (simp add: list_all_iff)
  show "\<exists>ys. map_String nts xs = Inr ys" if "list_all printable xs"
    using iff that by (cases "map_String nts xs") auto
  show "map_String nts xs = Inl TypeError" if "\<not> list_all printable xs"
    using iff that js_error_TypeError by (cases "map_String nts xs") auto
qed

lemma getDroppedPaths_cases:
  "getDroppedPaths nts payload =
     (case payload of
        JArr xs \<Rightarrow> map_String nts xs
      | JObj fs \<Rightarrow> (case map_of fs ''paths'' of Some (JArr xs) \<Rightarrow> map_String nts xs | _ \<Rightarrow> Inr [])
      | _ \<Rightarrow> Inr [])"
  by (cases payload) (auto simp: getDroppedPaths_def isArray_iff split: option.splits jsval.splits)

text \<open>
  C10, as amended. For every payload \<open>getDroppedPaths\<close> either returns a list of strings
  or throws the TypeError of a \<open>String\<close> conversion. For an array it returns the
  \<open>String\<close> of each element; for an object whose \<open>paths\<close> field is an array, the
  \<open>String\<close> of each element of that field; for every other value the empty list,
  without throwing. In the two array cases it returns when \<open>String\<close> converts every
  element and throws otherwise; \<open>String\<close> converts every value but an object with an
  own \<open>toString\<close> property and an array that contains such an object, at any depth.
\<close>

theorem getDroppedPaths_result:
  "(payload = JArr xs \<longrightarrow> getDroppedPaths nts payload = map_String nts xs)
   \<and> (payload = JObj fs \<and> map_of fs ''paths'' = Some (JArr xs) \<longrightarrow>
        getDroppedPaths nts payload = map_String nts xs)
   \<and> (\<not> isArray payload
        \<and> \<not> (\<exists>fs' xs'. payload = JObj fs' \<and> map_of fs' ''paths'' = Some (JArr xs')) \<longrightarrow>
        getDroppedPaths nts payload = Inr [])
   \<and> (map_String nts xs = Inr ys \<longleftrightarrow> list_all2 (\<lambda>x y. js_String nts x = Inr y) xs ys)
   \<and> (list_all printable xs \<longrightarrow> (\<exists>zs. map_String nts xs = Inr zs))
   \<and> (\<not> list_all printable xs \<longrightarrow> map_String nts xs = Inl TypeError)
   \<and> ((\<exists>text. js_String nts v = Inr text) \<longleftrightarrow> printable v)"
  using map_String_printable [of xs nts]
  by (auto simp: getDroppedPaths_cases map_String_Inr_iff js_String_printable
      split: option.splits jsval.splits)

theorem getDroppedPaths_result_witness:
  "getDroppedPaths integer_toString (JArr [JStr ''/photos'', JNum (Finite 3)])
     = Inr [''/photos'', ''3'']
   \<and> list_all printable [JStr ''/photos'', JNum (Finite 3)]
   \<and> getDroppedPaths integer_toString
        (JObj [(''paths'', JArr [JStr ''/photos'', JArr [JNull, JBool True]])])
     = Inr [''/photos'', '',true'']
   \<and> getDroppedPaths integer_toString JNull = Inr []
   \<and> getDroppedPaths integer_toString (JStr ''/photos'') = Inr []
   \<and> getDroppedPaths integer_toString (JObj [(''paths'', JStr ''/photos'')]) = Inr []
   \<and> \<not> list_all printable [JStr ''/photos'', JArr [unprintable]]
   \<and> getDroppedPaths integer_toString (JArr [JStr ''/photos'', JArr [unprintable]])
     = Inl TypeError"
proof -
  have a: "list_all printable [JStr ''/photos'', JNum (Finite 3)]" by simp
  have b: "\<not> list_all printable [JStr ''/photos'', JArr [unprintable]]"
    by (simp add: unprintable_def)
  from getDroppedPaths_result [of "JArr [JStr ''/photos'', JArr [unprintable]]"
      "[JStr ''/photos'', JArr [unprintable]]" integer_toString] b
  have c: "getDroppedPaths integer_toString (JArr [JStr ''/photos'', JArr [unprintable]])
     = Inl TypeError"
    by simp
  from a b c show ?thesis
    by (simp add: getDroppedPaths_def map_String_def integer_toString_def decimal.simps digit_def)
qed

text \<open>
  C10 as stated fails on an array that holds the object \<open>{"toString": 1}\<close>: \<open>String\<close>
  finds no callable \<open>toString\<close> and no primitive \<open>valueOf\<close> and throws, and so does
  \<open>getDroppedPaths\<close>.
\<close>

theorem getDroppedPaths_throws_counterexample:
  "getDroppedPaths integer_toString (JArr [JObj [(''toString'', JNum (Finite 1))]])
     = Inl TypeError
   \<and> getDroppedPaths integer_toString
        (JObj [(''paths'', JArr [JStr ''/photos'', JObj [(''toString'', JNum (Finite 1))]])])
     = Inl TypeError"
  by (simp add: getDroppedPaths_def map_String_def)

section \<open>The cache key\<close>



section \<open>Run ids\<close>

lemma loadGallery_finally_stale: "r \<noteq> loadRunIdRef g \<Longrightarrow> loadGallery_finally r g = g"
  by (simp add: loadGallery_finally_def)

lemma loadGallery_resume_stale:
  "r \<noteq> loadRunIdRef g \<Longrightarrow> loadGallery_resume nts r outcome g = (None, g)"
  by (cases outcome) (simp_all add: loadGallery_resume_def loadGallery_finally_stale)

lemma loadGallery_resume_ref:
  "loadRunIdRef (snd (loadGallery_resume nts r outcome g)) = loadRunIdRef g"
  by (cases outcome)
    (simp_all add: loadGallery_resume_def loadGallery_finally_def Let_def split: sum.splits)

lemma loadGallery_call_ref:
  "loadRunIdRef (snd (loadGallery_call h folder g)) = (if h then loadRunIdRef g + 1 else loadRunIdRef g)"
  by (simp add: loadGallery_call_def Let_def)

lemma loadGallery_call_id:
  "fst (loadGallery_call h folder g) = (if h then Some (loadRunIdRef g + 1) else None)"
  by (simp add: loadGallery_call_def Let_def)

lemma gallery_step_mono: "loadRunIdRef g \<le> loadRunIdRef (gallery_step nts g e)"
  by (cases e) (simp_all add: loadGallery_call_ref loadGallery_resume_ref)

lemma gallery_run_mono: "loadRunIdRef g \<le> loadRunIdRef (gallery_run nts evs g)"
  unfolding gallery_run_def
proof (induction evs arbitrary: g)
  case Nil
  show ?case by simp
next
  case (Cons e evs)
  have "loadRunIdRef g \<le> loadRunIdRef (gallery_step nts g e)" by (rule gallery_step_mono)
  also have "\<dots> \<le> loadRunIdRef (foldl (gallery_step nts) (gallery_step nts g e) evs)" by (rule Cons.IH)
  finally show ?case by simp
qed

lemma gallery_run_Cons: "gallery_run nts (e # evs) g = gallery_run nts evs (gallery_step nts g e)"
  by (simp add: gallery_run_def)

lemma run_ids_bounds:
  "r \<in> set (run_ids nts g evs) \<Longrightarrow> loadRunIdRef g < r \<and> r \<le> loadRunIdRef (gallery_run nts evs g)"
proof (induction evs arbitrary: g)
  case Nil
  then show ?case by simp
next
  case (Cons e evs)
  show ?case
  proof (cases e)
    case (LoadGallery h folder)
    let ?g' = "gallery_step nts g e"
    from Cons.prems LoadGallery
    consider "h" "r = loadRunIdRef g + 1" | "r \<in> set (run_ids nts ?g' evs)"
      by (auto simp: loadGallery_call_id split: if_splits)
    then show ?thesis
    proof cases
      case 1
      then have "loadRunIdRef ?g' = r" using LoadGallery by (simp add: loadGallery_call_ref)
      with gallery_run_mono [of ?g' nts evs] 1 show ?thesis by (simp add: gallery_run_Cons)
    next
      case 2
      from Cons.IH [OF 2] gallery_step_mono [of g nts e] show ?thesis
        by (simp add: gallery_run_Cons)
    qed
  next
    case (LoadSettled r' outcome)
    with Cons.prems have "r \<in> set (run_ids nts (gallery_step nts g e) evs)" by simp
    from Cons.IH [OF this] gallery_step_mono [of g nts e] show ?thesis
      by (simp add: gallery_run_Cons)
  qed
qed

lemma run_ids_sorted: "sorted_wrt (<) (run_ids nts g evs)"
proof (induction evs arbitrary: g)
  case Nil
  show ?case by simp
next
  case (Cons e evs)
  show ?case
  proof (cases e)
    case (LoadGallery h folder)
    have "\<forall>r \<in> set (run_ids nts (gallery_step nts g e) evs). loadRunIdRef (gallery_step nts g e) < r"
      using run_ids_bounds by blast
    with Cons.IH [of "gallery_step nts g e"] LoadGallery show ?thesis
      by (auto simp: loadGallery_call_id loadGallery_call_ref sorted_wrt_append)
  next
    case (LoadSettled r' outcome)
    with Cons.IH [of "gallery_step nts g e"] show ?thesis by simp
  qed
qed

lemma run_ids_distinct: "distinct (run_ids nts g evs)"
  using run_ids_sorted [of nts g evs] by (simp add: strict_sorted_iff)

text \<open>
  C3. A call of \<open>loadGallery\<close> that starts a scan takes the run id one above the counter
  and stores it before the backend is invoked (a call without the Tauri bridge starts no
  scan and hands out no id); App.jsx's \<open>loadGallery\<close> increments its counter by one in
  the same way. Over any interleaving of calls and settlements the run ids handed out are
  strictly increasing, hence pairwise different, each above the counter the interleaving
  started from and none above the final counter.
\<close>

theorem run_ids_increase:
  "fst (loadGallery_call True folder g) = Some (loadRunIdRef g + 1)
   \<and> loadRunIdRef (snd (loadGallery_call True folder g)) = loadRunIdRef g + 1
   \<and> fst (loadGallery_call False folder g) = None
   \<and> hydrationRunIdRef (loadGallery_App_call True folder a) = hydrationRunIdRef a + 1
   \<and> sorted_wrt (<) (run_ids nts g evs)
   \<and> distinct (run_ids nts g evs)
   \<and> (\<forall>r \<in> set (run_ids nts g evs). loadRunIdRef g < r \<and> r \<le> loadRunIdRef (gallery_run nts evs g))"
  using run_ids_bounds [of _ nts g evs]
  by (simp add: loadGallery_call_id loadGallery_call_ref run_ids_sorted run_ids_distinct
      loadGallery_App_call_def)

theorem run_ids_increase_witness:
  "run_ids integer_toString example_gallery
     [LoadGallery True ''/p'', LoadGallery True ''/q'', LoadSettled 1 (Inr example_response),
      LoadGallery False ''/r'', LoadGallery True ''/s''] = [1, 2, 3]
   \<and> loadRunIdRef example_gallery < 1
   \<and> 3 \<le> loadRunIdRef (gallery_run integer_toString
        [LoadGallery True ''/p'', LoadGallery True ''/q'', LoadSettled 1 (Inr example_response),
         LoadGallery False ''/r'', LoadGallery True ''/s''] example_gallery)"
proof -
  let ?evs = "[LoadGallery True ''/p'', LoadGallery True ''/q'', LoadSettled 1 (Inr example_response),
      LoadGallery False ''/r'', LoadGallery True ''/s'']"
  have e: "run_ids integer_toString example_gallery ?evs = [1, 2, 3]"
    by (simp add: example_gallery_def loadGallery_call_def loadGallery_resume_def
        loadGallery_finally_def Let_def)
  have "\<forall>r \<in> set (run_ids integer_toString example_gallery ?evs).
          loadRunIdRef example_gallery < r
          \<and> r \<le> loadRunIdRef (gallery_run integer_toString ?evs example_gallery)"
    using run_ids_increase [of "''/p''" example_gallery example_app integer_toString ?evs]
    by (elim conjE) assumption
  then have "loadRunIdRef example_gallery < 1
      \<and> 3 \<le> loadRunIdRef (gallery_run integer_toString ?evs example_gallery)"
    unfolding e by simp
  with e show ?thesis by (simp only: simp_thms)
qed

section \<open>What a settled scan shows\<close>

text \<open>
  C5, as amended. When \<open>load_gallery\<close> rejects for the current run, \<open>loadGallery\<close> of the
  hook empties the item list and the thumbnail map, sets the status to
  \<open>Failed to load folder.\<close> and ends the loading state; it records the stringified
  error when \<open>String(invokeError)\<close> does not throw, and when it throws the error is left
  as it was and \<open>loadGallery\<close> rejects with the TypeError. \<open>loadGallery\<close> of App.jsx does
  the same to the item list, the status, the loading state and the error; it empties the
  thumbnail map when the scan starts, and its \<open>catch\<close> block leaves the map as it is.
\<close>

theorem load_failure_reported:
  "(r = loadRunIdRef g \<longrightarrow>
     (let res = loadGallery_resume nts r (Inl invokeError) g; g' = snd res
      in gallery.items g' = []
         \<and> gallery.thumbnailDataByPath g' = JObj []
         \<and> gallery.status g' = ''Failed to load folder.''
         \<and> gallery.loading g' = False
         \<and> (js_String nts invokeError = Inr text \<longrightarrow> fst res = None \<and> gallery.error g' = text)
         \<and> (js_String nts invokeError = Inl e \<longrightarrow>
              fst res = Some e \<and> gallery.error g' = gallery.error g)))
   \<and> (let res = loadGallery_App_resume nts (Inl invokeError) a; a' = fst (snd res)
      in app.items a' = []
         \<and> app.status a' = ''Failed to load folder.''
         \<and> app.loading a' = False
         \<and> app.thumbnailDataByPath a' = app.thumbnailDataByPath a
         \<and> (js_String nts invokeError = Inr text \<longrightarrow> fst res = None \<and> app.error a' = text)
         \<and> (js_String nts invokeError = Inl e \<longrightarrow> fst res = Some e \<and> app.error a' = app.error a))
   \<and> app.thumbnailDataByPath (loadGallery_App_call True folder a) = Map.empty"
  by (auto simp: loadGallery_resume_def loadGallery_finally_def loadGallery_App_resume_def
      loadGallery_App_call_def Let_def split: sum.splits)

theorem load_failure_reported_witness:
  "(let g = snd (loadGallery_call True ''/p'' example_gallery);
        res = loadGallery_resume integer_toString 1 (Inl (JStr ''No such folder'')) g;
        res' = loadGallery_resume integer_toString 1 (Inl unprintable) g;
        app_res = loadGallery_App_resume integer_toString (Inl (JStr ''No such folder''))
                    (example_app\<lparr>app.thumbnailDataByPath := example_thumbnails\<rparr>)
    in 1 = loadRunIdRef g
       \<and> js_String integer_toString (JStr ''No such folder'') = Inr ''No such folder''
       \<and> fst res = None
       \<and> gallery.items (snd res) = [] \<and> gallery.thumbnailDataByPath (snd res) = JObj []
       \<and> gallery.status (snd res) = ''Failed to load folder.''
       \<and> gallery.error (snd res) = ''No such folder''
       \<and> js_String integer_toString unprintable = Inl TypeError
       \<and> fst res' = Some TypeError
       \<and> gallery.status (snd res') = ''Failed to load folder.''
       \<and> gallery.error (snd res') = []
       \<and> app.items (fst (snd app_res)) = []
       \<and> app.error (fst (snd app_res)) = ''No such folder''
       \<and> app.thumbnailDataByPath (fst (snd app_res)) = example_thumbnails)"
proof -
  let ?g = "snd (loadGallery_call True ''/p'' example_gallery)"
  let ?a = "example_app\<lparr>app.thumbnailDataByPath := example_thumbnails\<rparr>"
  have h: "1 = loadRunIdRef ?g"
    by (simp add: loadGallery_call_def example_gallery_def Let_def)
  have s1: "js_String integer_toString (JStr ''No such folder'') = Inr ''No such folder''"
    by simp
  have s2: "js_String integer_toString unprintable = Inl TypeError"
    by (simp add: unprintable_def)
  have e: "gallery.error ?g = []"
    by (simp add: loadGallery_call_def example_gallery_def Let_def)
  have m: "app.thumbnailDataByPath ?a = example_thumbnails" by simp
  from load_failure_reported [of 1 ?g integer_toString "JStr ''No such folder''"
      "''No such folder''" TypeError ?a "''/p''"]
    load_failure_reported [of 1 ?g integer_toString unprintable "[]" TypeError ?a "''/p''"]
    h s1 s2 e m
  show ?thesis by (simp add: Let_def)
qed

text \<open>
  C5 as stated fails in two ways. In App.jsx the thumbnail map is not emptied: a scan
  of \<open>/p\<close> is started and then a scan of \<open>/q\<close>; the response of the first scan arrives
  late and its hydration, started under the run id that is current then, stores a
  thumbnail; the second scan is rejected, and the map still holds that thumbnail. And in
  the hook no stringified error is recorded when the rejection value is the object
  \<open>{"toString": 1}\<close>: \<open>String\<close> throws, and the error stays empty.
\<close>

theorem load_failure_counterexample:
  "(case loadGallery_App_resume integer_toString (Inr example_response)
          (loadGallery_App_call True ''/q'' (loadGallery_App_call True ''/p'' example_app)) of
      (thrown, a, Some p) \<Rightarrow>
        (let a' = snd (worker_resume integer_toString 0 (Inr (JStr ''data:a'')) (p, a));
             res = loadGallery_App_resume integer_toString (Inl (JStr ''No such folder'')) a'
         in app.items (fst (snd res)) = []
            \<and> app.status (fst (snd res)) = ''Failed to load folder.''
            \<and> app.thumbnailDataByPath (fst (snd res)) ''/p/a.png'' = Some ''data:a''
            \<and> app.thumbnailDataByPath (fst (snd res)) \<noteq> Map.empty)
    | (thrown, a, None) \<Rightarrow> False)
   \<and> (let res = loadGallery_resume integer_toString 1 (Inl unprintable)
                  (snd (loadGallery_call True ''/p'' example_gallery))
      in fst res = Some TypeError \<and> gallery.error (snd res) = [])"
proof -
  let ?a2 = "loadGallery_App_call True ''/q'' (loadGallery_App_call True ''/p'' example_app)"
  let ?items = "app.items (fst (snd (loadGallery_App_resume integer_toString (Inr example_response) ?a2)))"
  obtain a p where r: "loadGallery_App_resume integer_toString (Inr example_response) ?a2
      = (None, a, Some p)"
    by (simp add: loadGallery_App_resume_def Let_def)
  let ?a' = "snd (worker_resume integer_toString 0 (Inr (JStr ''data:a'')) (p, a))"
  let ?res = "loadGallery_App_resume integer_toString (Inl (JStr ''No such folder'')) ?a'"
  have m: "app.thumbnailDataByPath
             (snd (worker_resume integer_toString 0 (Inr (JStr ''data:a''))
               (the (snd (snd (loadGallery_App_resume integer_toString (Inr example_response) ?a2))),
                fst (snd (loadGallery_App_resume integer_toString (Inr example_response) ?a2)))))
             ''/p/a.png'' = Some ''data:a''"
    by code_simp
  with r have m': "app.thumbnailDataByPath ?a' ''/p/a.png'' = Some ''data:a''" by simp
  have k: "app.thumbnailDataByPath (fst (snd ?res)) = app.thumbnailDataByPath ?a'"
    and i: "app.items (fst (snd ?res)) = []"
    and t: "app.status (fst (snd ?res)) = ''Failed to load folder.''"
    by (simp_all add: loadGallery_App_resume_def Let_def)
  from m' k have n: "app.thumbnailDataByPath (fst (snd ?res)) \<noteq> Map.empty"
    by (metis option.distinct(1))
  have h: "(let res = loadGallery_resume integer_toString 1 (Inl unprintable)
                  (snd (loadGallery_call True ''/p'' example_gallery))
      in fst res = Some TypeError \<and> gallery.error (snd res) = [])"
    by (simp add: loadGallery_resume_def loadGallery_finally_def loadGallery_call_def
        example_gallery_def unprintable_def Let_def)
  from r m' k i t n h show ?thesis by (simp add: Let_def)
qed

lemma formatImageCount_length:
  "formatImageCount nts (js_length xs) = nts (of_nat (length xs)) @ '' image'' @ (if length xs = 1 then [] else ''s'')"
  by (simp add: formatImageCount_def js_length_def Let_def max_def)

text \<open>
  C6. When the response of the current run has \<open>cancelled = true\<close>, its items are
  shown and the status is \<open>Stopped. Loaded N ... before cancel.\<close>; when \<open>cancelled\<close> is
  absent or false the status is \<open>Loaded N ....\<close>. The two texts differ, and in both
  cases the error is left as it was: a cancelled scan is a response, not a rejection.
\<close>

theorem cancelled_scan_reported:
  "r = loadRunIdRef g \<Longrightarrow>
     (let g' = snd (loadGallery_resume nts r (Inr response) g);
          shown = (if isArray (js_get_opt response ''items'')
                   then elements (js_get_opt response ''items'') else []);
          stopped = ''Stopped. Loaded '' @ formatImageCount nts (js_length shown) @ '' before cancel.'';
          loaded = ''Loaded '' @ formatImageCount nts (js_length shown) @ ''.''
      in gallery.items g' = shown
         \<and> gallery.error g' = gallery.error g
         \<and> fst (loadGallery_resume nts r (Inr response) g) = None
         \<and> (js_get_opt response ''cancelled'' = JBool True \<longrightarrow> gallery.status g' = stopped)
         \<and> (js_get_opt response ''cancelled'' = JUndefined
              \<or> js_get_opt response ''cancelled'' = JBool False \<longrightarrow> gallery.status g' = loaded)
         \<and> gallery.status g' = (if truthy (js_get_opt response ''cancelled'') then stopped else loaded)
         \<and> stopped \<noteq> loaded)"
  by (auto simp: loadGallery_resume_def loadGallery_finally_def Let_def)

theorem cancelled_scan_reported_witness:
  "(let g = snd (loadGallery_call True ''/p'' example_gallery);
        g' = snd (loadGallery_resume integer_toString 1 (Inr example_response) g);
        g'' = snd (loadGallery_resume integer_toString 1
                    (Inr (JObj [(''items'', JArr example_items)])) g)
    in 1 = loadRunIdRef g
       \<and> js_get_opt example_response ''cancelled'' = JBool True
       \<and> gallery.items g' = example_items
       \<and> gallery.status g' = ''Stopped. Loaded 3 images before cancel.''
       \<and> gallery.error g' = []
       \<and> js_get_opt (JObj [(''items'', JArr example_items)]) ''cancelled'' = JUndefined
       \<and> gallery.items g'' = example_items
       \<and> gallery.status g'' = ''Loaded 3 images.''
       \<and> gallery.error g'' = [])"
proof -
  let ?g = "snd (loadGallery_call True ''/p'' example_gallery)"
  let ?plain = "JObj [(''items'', JArr example_items)]"
  have h: "1 = loadRunIdRef ?g"
    by (simp add: loadGallery_call_def example_gallery_def Let_def)
  have c: "js_get_opt example_response ''cancelled'' = JBool True"
    and i: "js_get_opt example_response ''items'' = JArr example_items"
    and c': "js_get_opt ?plain ''cancelled'' = JUndefined"
    and i': "js_get_opt ?plain ''items'' = JArr example_items"
    by (simp_all add: example_response_def js_get_opt_def)
  have f: "formatImageCount integer_toString (js_length example_items) = ''3 images''"
    by (simp add: formatImageCount_def js_length_def example_items_def integer_toString_def
        decimal.simps digit_def Let_def)
  have e: "gallery.error ?g = []"
    by (simp add: loadGallery_call_def example_gallery_def Let_def)
  from cancelled_scan_reported [OF h, of integer_toString example_response]
    cancelled_scan_reported [OF h, of integer_toString ?plain] c i c' i' f e h
  show ?thesis by (simp add: Let_def)
qed

section \<open>The worker pool\<close>

lemma worker_loop_step:
  assumes "worker_loop cur p = (ws, p')"
    and "cursor p \<le> length (galleryItems p)"
    and "invoked p = filter (\<lambda>i. has_path (galleryItems p ! i)) [0..<cursor p]"
  shows "galleryItems p' = galleryItems p \<and> runId p' = runId p \<and> workers p' = workers p
     \<and> cursor p \<le> cursor p' \<and> cursor p' \<le> length (galleryItems p)
     \<and> invoked p' = filter (\<lambda>i. has_path (galleryItems p ! i)) [0..<cursor p']
     \<and> worker_ok p' ws
     \<and> (ws = Returned \<and> runId p = cur \<longrightarrow> cursor p' = length (galleryItems p))
     \<and> (runId p \<noteq> cur \<longrightarrow> ws = Returned \<and> p' = p)"
  using assms
proof (induction cur p arbitrary: ws p' rule: worker_loop.induct)
  case (1 current p)
  show ?case
  proof (cases "cursor p < length (galleryItems p) \<and> runId p = current")
    case False
    with "1.prems" show ?thesis by (auto simp: worker_loop.simps [of current p] worker_ok_def)
  next
    case True
    let ?p1 = "p\<lparr>cursor := cursor p + 1\<rparr>"
    show ?thesis
    proof (cases "js_get (galleryItems p ! cursor p) ''path''")
      case (Inl e)
      with True "1.prems" have wl: "worker_loop current ?p1 = (ws, p')"
        by (simp add: worker_loop.simps [of current p] Let_def)
      from Inl have np: "\<not> has_path (galleryItems p ! cursor p)" by (simp add: has_path_def)
      have a1: "cursor ?p1 \<le> length (galleryItems ?p1)" using True by simp
      have a2: "invoked ?p1 = filter (\<lambda>i. has_path (galleryItems ?p1 ! i)) [0..<cursor ?p1]"
        using "1.prems"(3) np by simp
      from "1.IH" [OF True refl refl refl Inl wl a1 a2] True show ?thesis by auto
    next
      case (Inr v)
      then have hp: "has_path (galleryItems p ! cursor p)" by (simp add: has_path_def)
      from Inr True "1.prems"(1)
      have ws: "ws = Awaiting (cursor p) (galleryItems p ! cursor p)"
        and p': "p' = ?p1\<lparr>invoked := invoked p @ [cursor p]\<rparr>"
        by (auto simp: worker_loop.simps [of current p] Let_def)
      show ?thesis using True hp "1.prems"(3) by (simp add: ws p' worker_ok_def)
    qed
  qed
qed

lemma worker_ok_mono:
  "worker_ok p w \<Longrightarrow> galleryItems p' = galleryItems p \<Longrightarrow> cursor p \<le> cursor p' \<Longrightarrow> worker_ok p' w"
  by (cases w) (auto simp: worker_ok_def)

lemma list_all_worker_ok_mono:
  "list_all (worker_ok p) ws \<Longrightarrow> galleryItems p' = galleryItems p \<Longrightarrow> cursor p \<le> cursor p'
     \<Longrightarrow> list_all (worker_ok p') ws"
  by (auto simp: list_all_iff intro: worker_ok_mono)

lemma worker_ok_workers_update [simp]: "worker_ok (p\<lparr>workers := ws\<rparr>) w = worker_ok p w"
  by (cases w) (simp_all add: worker_ok_def)

lemma list_all_update: "list_all P xs \<Longrightarrow> P y \<Longrightarrow> list_all P (xs[i := y])"
  by (auto simp: list_all_iff dest: set_update_subset_insert [THEN subsetD])

lemma worker_continue_inv:
  assumes inv: "pool_inv p" and w: "w < length (workers p)"
  shows "pool_inv (fst (worker_continue w (p, a)))
     \<and> snd (worker_continue w (p, a)) = a
     \<and> galleryItems (fst (worker_continue w (p, a))) = galleryItems p
     \<and> runId (fst (worker_continue w (p, a))) = runId p
     \<and> length (workers (fst (worker_continue w (p, a)))) = length (workers p)"
proof -
  obtain ws p' where wl: "worker_loop (hydrationRunIdRef a) p = (ws, p')"
    by (cases "worker_loop (hydrationRunIdRef a) p")
  from inv have c: "cursor p \<le> length (galleryItems p)"
    and i: "invoked p = filter (\<lambda>i. has_path (galleryItems p ! i)) [0..<cursor p]"
    and l: "list_all (worker_ok p) (workers p)"
    by (simp_all add: pool_inv_def)
  note st = worker_loop_step [OF wl c i]
  have res: "worker_continue w (p, a) = (p'\<lparr>workers := (workers p)[w := ws]\<rparr>, a)"
    using wl st by (simp add: worker_continue_def)
  from st have gi: "galleryItems p' = galleryItems p" and cm: "cursor p \<le> cursor p'"
    and ok: "worker_ok p' ws" by simp_all
  have "list_all (worker_ok p') (workers p)"
    by (rule list_all_worker_ok_mono [OF l gi cm])
  then have "list_all (worker_ok p') ((workers p)[w := ws])"
    using ok by (rule list_all_update)
  then have "list_all (worker_ok (p'\<lparr>workers := (workers p)[w := ws]\<rparr>)) ((workers p)[w := ws])"
    by (simp add: list_all_iff)
  with st show ?thesis by (simp add: res pool_inv_def)
qed

lemma worker_continue_app: "snd (worker_continue w (p, a)) = a"
  by (simp add: worker_continue_def split: prod.splits)

lemma pool_inv_return:
  assumes "pool_inv p"
  shows "pool_inv (p\<lparr>workers := (workers p)[w := Returned]\<rparr>)"
proof -
  from assms have "list_all (worker_ok p) (workers p)" by (simp add: pool_inv_def)
  moreover have "worker_ok p Returned" by (simp add: worker_ok_def)
  ultimately have "list_all (worker_ok p) ((workers p)[w := Returned])"
    by (rule list_all_update)
  with assms show ?thesis by (simp add: pool_inv_def list_all_iff)
qed

lemma worker_resume_inv:
  assumes inv: "pool_inv p"
  shows "pool_inv (fst (worker_resume nts w outcome (p, a)))
     \<and> galleryItems (fst (worker_resume nts w outcome (p, a))) = galleryItems p
     \<and> runId (fst (worker_resume nts w outcome (p, a))) = runId p
     \<and> length (workers (fst (worker_resume nts w outcome (p, a)))) = length (workers p)
     \<and> hydrationRunIdRef (snd (worker_resume nts w outcome (p, a))) = hydrationRunIdRef a"
proof (cases "w < length (workers p)")
  case False
  with inv show ?thesis by (simp add: worker_resume_def)
next
  case True
  note ci = worker_continue_inv [OF inv True]
  show ?thesis
    using True inv ci pool_inv_return [OF inv, of w]
    by (auto simp: worker_resume_def split: worker_state.splits sum.splits)
qed

lemma spawn_inv:
  "pool_inv p \<Longrightarrow>
     pool_inv (spawn cur n p)
     \<and> length (workers (spawn cur n p)) = length (workers p) + n
     \<and> galleryItems (spawn cur n p) = galleryItems p
     \<and> runId (spawn cur n p) = runId p"
proof (induction n arbitrary: p)
  case 0
  then show ?case by simp
next
  case (Suc n)
  obtain w p' where wl: "worker_loop cur p = (w, p')" by (cases "worker_loop cur p")
  from Suc.prems have c: "cursor p \<le> length (galleryItems p)"
    and i: "invoked p = filter (\<lambda>i. has_path (galleryItems p ! i)) [0..<cursor p]"
    and l: "list_all (worker_ok p) (workers p)"
    by (simp_all add: pool_inv_def)
  note st = worker_loop_step [OF wl c i]
  from st have gi: "galleryItems p' = galleryItems p" and cm: "cursor p \<le> cursor p'"
    and ok: "worker_ok p' w" and wk: "workers p' = workers p" by simp_all
  let ?q = "p'\<lparr>workers := workers p' @ [w]\<rparr>"
  have "list_all (worker_ok p') (workers p)"
    by (rule list_all_worker_ok_mono [OF l gi cm])
  with ok wk have "list_all (worker_ok ?q) (workers ?q)" by (simp add: list_all_iff)
  with st have q: "pool_inv ?q" by (simp add: pool_inv_def)
  from Suc.IH [OF q] st wl show ?case by simp
qed

lemma hydrateThumbnails_inv:
  "pool_inv (hydrateThumbnails items0 rid a)
     \<and> length (workers (hydrateThumbnails items0 rid a)) = min 6 (length items0)
     \<and> galleryItems (hydrateThumbnails items0 rid a) = items0
     \<and> runId (hydrateThumbnails items0 rid a) = rid"
proof -
  let ?p0 = "\<lparr>galleryItems = items0, runId = rid, cursor = 0, workers = [], invoked = []\<rparr>"
  have "pool_inv ?p0" by (simp add: pool_inv_def)
  from spawn_inv [OF this, of "hydrationRunIdRef a" "min 6 (length items0)"]
  show ?thesis by (simp add: hydrateThumbnails_def Let_def)
qed

lemma hydration_step_inv:
  assumes "pool_inv (fst c)"
  shows "pool_inv (fst (hydration_step nts c e))
     \<and> galleryItems (fst (hydration_step nts c e)) = galleryItems (fst c)
     \<and> length (workers (fst (hydration_step nts c e))) = length (workers (fst c))"
proof (cases e)
  case (ThumbnailSettled w outcome)
  with worker_resume_inv [of "fst c" nts w outcome "snd c"] assms show ?thesis by simp
next
  case (NewScan h folder)
  with assms show ?thesis by simp
qed

lemma hydration_run_inv:
  "pool_inv (fst c) \<Longrightarrow>
     pool_inv (fst (hydration_run nts evs c))
     \<and> galleryItems (fst (hydration_run nts evs c)) = galleryItems (fst c)
     \<and> length (workers (fst (hydration_run nts evs c))) = length (workers (fst c))"
  unfolding hydration_run_def
proof (induction evs arbitrary: c)
  case Nil
  then show ?case by simp
next
  case (Cons e evs)
  note st = hydration_step_inv [OF Cons.prems, of nts e]
  from st have "pool_inv (fst (hydration_step nts c e))" by simp
  from Cons.IH [OF this] st show ?case by simp
qed

lemma pool_inv_dispatch:
  assumes "pool_inv p"
  shows "distinct (invoked p)" and "\<forall>i \<in> set (invoked p). i < length (galleryItems p)"
  using assms by (auto simp: pool_inv_def)

text \<open>The hydration that App.jsx starts on a response runs under the current run id.\<close>

lemma loadGallery_App_resume_pool:
  "snd (snd (loadGallery_App_resume nts (Inr response) a)) = Some p \<Longrightarrow>
     length (workers p) = min 6 (length (galleryItems p))
     \<and> runId p = hydrationRunIdRef a
     \<and> galleryItems p = app.items (fst (snd (loadGallery_App_resume nts (Inr response) a)))"
  using hydrateThumbnails_inv
  by (auto simp: loadGallery_App_resume_def Let_def)

text \<open>
  C2. For every item list, \<open>hydrateThumbnails\<close> starts exactly \<open>min(6, item_count)\<close>
  workers, never more than 6. Whatever happens afterwards (calls settling in any order
  with any outcome, new scans starting), the number of workers stays the same and no
  index of the list is passed to \<open>load_thumbnail\<close> twice.
\<close>

theorem hydration_workers_and_dispatch:
  "length (workers (hydrateThumbnails items0 rid a)) = min 6 (length items0)
   \<and> length (workers (hydrateThumbnails items0 rid a)) \<le> 6
   \<and> (let p = fst (hydration_run nts evs (hydrateThumbnails items0 rid a, a))
      in length (workers p) = min 6 (length items0)
         \<and> distinct (invoked p)
         \<and> (\<forall>i \<in> set (invoked p). i < length items0))"
proof -
  let ?c = "(hydrateThumbnails items0 rid a, a)"
  note h = hydrateThumbnails_inv [of items0 rid a]
  then have "pool_inv (fst ?c)" by simp
  note r = hydration_run_inv [OF this, of nts evs]
  from r have "pool_inv (fst (hydration_run nts evs ?c))" by simp
  from pool_inv_dispatch [OF this] r h show ?thesis by (simp add: Let_def)
qed

theorem hydration_workers_and_dispatch_witness:
  "length (workers (hydrateThumbnails seven_items 1 example_app)) = 6
   \<and> invoked (fst (hydration_run integer_toString
        [ThumbnailSettled 2 (Inr (JStr ''data:2'')), ThumbnailSettled 2 (Inl (JStr ''decode error'')),
         NewScan True ''/q'', ThumbnailSettled 0 (Inr (JStr ''data:0''))]
        (hydrateThumbnails seven_items 1 example_app, example_app))) = [0, 1, 2, 3, 4, 5, 6]"
proof -
  have e: "invoked (fst (hydration_run integer_toString
        [ThumbnailSettled 2 (Inr (JStr ''data:2'')), ThumbnailSettled 2 (Inl (JStr ''decode error'')),
         NewScan True ''/q'', ThumbnailSettled 0 (Inr (JStr ''data:0''))]
        (hydrateThumbnails seven_items 1 example_app, example_app))) = [0, 1, 2, 3, 4, 5, 6]"
    by code_simp
  have l: "length seven_items = 7" by (simp add: seven_items_def)
  from hydration_workers_and_dispatch [of seven_items 1 example_app integer_toString
      "[ThumbnailSettled 2 (Inr (JStr ''data:2'')), ThumbnailSettled 2 (Inl (JStr ''decode error'')),
         NewScan True ''/q'', ThumbnailSettled 0 (Inr (JStr ''data:0''))]"] l e
  show ?thesis by simp
qed

section \<open>Superseded runs\<close>

lemma worker_loop_stale: "runId p \<noteq> cur \<Longrightarrow> worker_loop cur p = (Returned, p)"
  by (simp add: worker_loop.simps [of cur p])

lemma worker_resume_stale:
  assumes "runId p \<noteq> hydrationRunIdRef a"
  shows "snd (worker_resume nts w outcome (p, a)) = a"
    and "invoked (fst (worker_resume nts w outcome (p, a))) = invoked p"
  using assms
  by (auto simp: worker_resume_def worker_continue_def worker_loop_stale
      split: worker_state.splits sum.splits)

lemma worker_continue_runId: "runId (fst (worker_continue w (p, a))) = runId p"
proof -
  obtain ws p' where wl: "worker_loop (hydrationRunIdRef a) p = (ws, p')"
    by (cases "worker_loop (hydrationRunIdRef a) p")
  from worker_loop_props [OF wl] wl show ?thesis by (simp add: worker_continue_def)
qed

lemma worker_resume_ids:
  "runId (fst (worker_resume nts w outcome (p, a))) = runId p
   \<and> hydrationRunIdRef (snd (worker_resume nts w outcome (p, a))) = hydrationRunIdRef a"
  using worker_continue_runId worker_continue_app
  by (auto simp: worker_resume_def split: worker_state.splits sum.splits)

lemma hydration_step_ids:
  "runId (fst (hydration_step nts c e)) = runId (fst c)
   \<and> hydrationRunIdRef (snd c) \<le> hydrationRunIdRef (snd (hydration_step nts c e))"
proof (cases e)
  case (ThumbnailSettled w outcome)
  with worker_resume_ids [of nts w outcome "fst c" "snd c"] show ?thesis by simp
next
  case (NewScan h folder)
  then show ?thesis by (simp add: loadGallery_App_call_def)
qed

lemma hydration_run_ids:
  "runId (fst (hydration_run nts evs c)) = runId (fst c)
   \<and> hydrationRunIdRef (snd c) \<le> hydrationRunIdRef (snd (hydration_run nts evs c))"
  unfolding hydration_run_def
proof (induction evs arbitrary: c)
  case Nil
  show ?case by simp
next
  case (Cons e evs)
  from Cons.IH [of "hydration_step nts c e"] hydration_step_ids [of nts c e]
  show ?case by simp
qed

text \<open>
  C1. A run that is no longer current publishes nothing. In \<open>loadGallery\<close> of the hook,
  when the call of a run settles (with a response or a rejection) and its run id is not
  the current one, the state is left exactly as it was and nothing is thrown; once a run id is below the
  counter it stays so whatever happens later. In \<open>hydrateThumbnails\<close>, when a worker
  of a hydration whose run id is not the current one resumes, the app state (the
  thumbnail map included) is left as it was and no further \<open>load_thumbnail\<close> call is
  issued; again a hydration that is behind the counter stays behind.
\<close>

theorem stale_runs_never_publish:
  "(r \<noteq> loadRunIdRef g \<longrightarrow> loadGallery_resume nts r outcome g = (None, g))
   \<and> (r < loadRunIdRef g \<longrightarrow>
        loadGallery_resume nts r outcome (gallery_run nts evs g) = (None, gallery_run nts evs g))
   \<and> (runId p \<noteq> hydrationRunIdRef a \<longrightarrow>
        snd (worker_resume nts w result (p, a)) = a
        \<and> invoked (fst (worker_resume nts w result (p, a))) = invoked p)
   \<and> (runId p < hydrationRunIdRef a \<longrightarrow>
        (let c = hydration_run nts hevs (p, a)
         in snd (worker_resume nts w result c) = snd c
            \<and> invoked (fst (worker_resume nts w result c)) = invoked (fst c)))"
proof -
  have "loadGallery_resume nts r outcome (gallery_run nts evs g) = (None, gallery_run nts evs g)"
    if "r < loadRunIdRef g"
  proof -
    from that gallery_run_mono [of g nts evs] have "r \<noteq> loadRunIdRef (gallery_run nts evs g)"
      by simp
    then show ?thesis by (rule loadGallery_resume_stale)
  qed
  moreover
  have "snd (worker_resume nts w result c) = snd c
        \<and> invoked (fst (worker_resume nts w result c)) = invoked (fst c)"
    if "runId p < hydrationRunIdRef a" and "c = hydration_run nts hevs (p, a)" for c
  proof -
    from that hydration_run_ids [of nts hevs "(p, a)"]
    have "runId (fst c) \<noteq> hydrationRunIdRef (snd c)" by simp
    from worker_resume_stale [OF this, of nts w result] show ?thesis by simp
  qed
  ultimately show ?thesis
    by (simp add: loadGallery_resume_stale worker_resume_stale Let_def)
qed

theorem stale_runs_never_publish_witness:
  "1 < loadRunIdRef twice_scanned
   \<and> loadGallery_resume integer_toString 1 (Inr example_response) twice_scanned
        = (None, twice_scanned)
   \<and> gallery.items twice_scanned = []
   \<and> runId (hydrateThumbnails example_items 1 example_app)
        < hydrationRunIdRef (loadGallery_App_call True ''/q'' example_app)
   \<and> app.thumbnailDataByPath
        (snd (worker_resume integer_toString 0 (Inr (JStr ''data:a''))
           (hydrateThumbnails example_items 1 example_app,
            loadGallery_App_call True ''/q'' example_app))) = Map.empty"
proof -
  have h1: "1 < loadRunIdRef twice_scanned"
    by (simp add: twice_scanned_def example_gallery_def loadGallery_call_def Let_def)
  have h2: "runId (hydrateThumbnails example_items 1 example_app)
        < hydrationRunIdRef (loadGallery_App_call True ''/q'' example_app)"
    using hydrateThumbnails_inv [of example_items 1 example_app]
    by (simp add: loadGallery_App_call_def example_app_def)
  have e1: "gallery.items twice_scanned = []"
    by (simp add: twice_scanned_def example_gallery_def loadGallery_call_def Let_def)
  have e2: "app.thumbnailDataByPath (loadGallery_App_call True ''/q'' example_app) = Map.empty"
    by (simp add: loadGallery_App_call_def)
  from stale_runs_never_publish [of 1 twice_scanned integer_toString "Inr example_response" "[]"
      "hydrateThumbnails example_items 1 example_app" "loadGallery_App_call True ''/q'' example_app"
      0 "Inr (JStr ''data:a'')" "[]"] h1 h2 e1 e2
  show ?thesis by (simp add: gallery_run_def)
qed

section \<open>Entries of the thumbnail map\<close>

lemma setThumbnail_kept:
  "js_String nts path = Inr k \<Longrightarrow> entry_truthy prev k \<Longrightarrow>
     setThumbnail nts prev path d = Inr prev"
  by (simp add: setThumbnail_def)

lemma setThumbnail_written:
  "js_String nts path = Inr k \<Longrightarrow> \<not> entry_truthy prev k \<Longrightarrow>
     setThumbnail nts prev path d
       = (case js_String nts d of Inl e \<Rightarrow> Inl e | Inr text \<Rightarrow> Inr (prev(k \<mapsto> text)))"
  by (simp add: setThumbnail_def)

lemma setThumbnail_other:
  "setThumbnail nts prev path d = Inr next \<Longrightarrow> js_String nts path \<noteq> Inr k' \<Longrightarrow> next k' = prev k'"
  by (auto simp: setThumbnail_def split: sum.splits if_splits)

lemma worker_resume_thumbnails:
  assumes "w < length (workers p)" and "workers p ! w = Awaiting i item"
    and "js_get item ''path'' = Inr v"
  shows "app.thumbnailDataByPath (snd (worker_resume nts w (Inr d) (p, a)))
         = (if runId p = hydrationRunIdRef a
            then (case setThumbnail nts (app.thumbnailDataByPath a) v d of
                    Inl e \<Rightarrow> app.thumbnailDataByPath a
                  | Inr next \<Rightarrow> next)
            else app.thumbnailDataByPath a)"
  using assms by (simp add: worker_resume_def worker_continue_app split: sum.splits)

lemma worker_resume_other:
  assumes "w < length (workers p)" and "workers p ! w = Awaiting i item"
    and "js_get item ''path'' = Inr v" and "js_String nts v \<noteq> Inr k'"
  shows "app.thumbnailDataByPath (snd (worker_resume nts w (Inr d) (p, a))) k'
         = app.thumbnailDataByPath a k'"
  using assms(4) setThumbnail_other [of nts "app.thumbnailDataByPath a" v d _ k']
  by (simp add: worker_resume_thumbnails [OF assms(1-3)] split: sum.splits)

text \<open>
  C9, as amended. If the thumbnail map holds a non-empty entry for an item's path, a
  successful \<open>load_thumbnail\<close> result for that path leaves the map unchanged; and an
  update for one path leaves the entries of all other paths as they were. An entry that
  is the empty string is treated as missing, and so is a missing entry, unless the path
  names a property of \<open>Object.prototype\<close>, which reads as a non-empty entry: the update
  sets an entry treated as missing to the string of the result (in a worker, when its run
  is the current one), and stores nothing when \<open>String\<close> throws on the result. All of it
  holds for the updater and for the resumption of a worker that applies it; the key is
  the string of the item's path.
\<close>

theorem thumbnail_entry_write_once:
  "(entry_truthy prev k \<longleftrightarrow>
      (\<exists>s. prev k = Some s \<and> s \<noteq> []) \<or> (prev k = None \<and> k \<in> set Object_prototype_keys))
   \<and> (js_String nts path = Inr k \<longrightarrow>
      (prev k = Some s \<and> s \<noteq> [] \<longrightarrow> setThumbnail nts prev path d = Inr prev)
      \<and> (entry_truthy prev k \<longrightarrow> setThumbnail nts prev path d = Inr prev)
      \<and> (\<not> entry_truthy prev k \<and> js_String nts d = Inr text \<longrightarrow>
           setThumbnail nts prev path d = Inr (prev(k \<mapsto> text)))
      \<and> (\<not> entry_truthy prev k \<and> js_String nts d = Inl e \<longrightarrow>
           setThumbnail nts prev path d = Inl e))
   \<and> (setThumbnail nts prev path d = Inr next \<and> js_String nts path \<noteq> Inr k' \<longrightarrow>
        next k' = prev k')
   \<and> (w < length (workers p) \<and> workers p ! w = Awaiting i item \<and> js_get item ''path'' = Inr v
        \<longrightarrow>
        (js_String nts v = Inr k \<and> app.thumbnailDataByPath a k = Some s \<and> s \<noteq> [] \<longrightarrow>
           app.thumbnailDataByPath (snd (worker_resume nts w (Inr dataUrl) (p, a)))
             = app.thumbnailDataByPath a)
        \<and> (js_String nts v = Inr k \<and> entry_truthy (app.thumbnailDataByPath a) k \<longrightarrow>
           app.thumbnailDataByPath (snd (worker_resume nts w (Inr dataUrl) (p, a)))
             = app.thumbnailDataByPath a)
        \<and> (js_String nts v = Inr k \<and> \<not> entry_truthy (app.thumbnailDataByPath a) k
             \<and> js_String nts dataUrl = Inr text \<and> runId p = hydrationRunIdRef a \<longrightarrow>
           app.thumbnailDataByPath (snd (worker_resume nts w (Inr dataUrl) (p, a)))
             = (app.thumbnailDataByPath a)(k \<mapsto> text))
        \<and> (js_String nts v = Inr k \<and> \<not> entry_truthy (app.thumbnailDataByPath a) k
             \<and> js_String nts dataUrl = Inl e \<longrightarrow>
           app.thumbnailDataByPath (snd (worker_resume nts w (Inr dataUrl) (p, a)))
             = app.thumbnailDataByPath a)
        \<and> (js_String nts v \<noteq> Inr k' \<longrightarrow>
           app.thumbnailDataByPath (snd (worker_resume nts w (Inr dataUrl) (p, a))) k'
             = app.thumbnailDataByPath a k'))"
proof -
  have t: "entry_truthy prev k \<longleftrightarrow>
      (\<exists>s. prev k = Some s \<and> s \<noteq> []) \<or> (prev k = None \<and> k \<in> set Object_prototype_keys)"
    by (auto simp: entry_truthy_def split: option.splits)
  have u: "js_String nts path = Inr k \<longrightarrow>
      (prev k = Some s \<and> s \<noteq> [] \<longrightarrow> setThumbnail nts prev path d = Inr prev)
      \<and> (entry_truthy prev k \<longrightarrow> setThumbnail nts prev path d = Inr prev)
      \<and> (\<not> entry_truthy prev k \<and> js_String nts d = Inr text \<longrightarrow>
           setThumbnail nts prev path d = Inr (prev(k \<mapsto> text)))
      \<and> (\<not> entry_truthy prev k \<and> js_String nts d = Inl e \<longrightarrow>
           setThumbnail nts prev path d = Inl e)"
    by (auto simp: setThumbnail_def entry_truthy_def)
  have o: "setThumbnail nts prev path d = Inr next \<and> js_String nts path \<noteq> Inr k' \<longrightarrow>
        next k' = prev k'"
    using setThumbnail_other [of nts prev path d "next" k'] by blast
  have r: "(js_String nts v = Inr k \<and> app.thumbnailDataByPath a k = Some s \<and> s \<noteq> [] \<longrightarrow>
           app.thumbnailDataByPath (snd (worker_resume nts w (Inr dataUrl) (p, a)))
             = app.thumbnailDataByPath a)
        \<and> (js_String nts v = Inr k \<and> entry_truthy (app.thumbnailDataByPath a) k \<longrightarrow>
           app.thumbnailDataByPath (snd (worker_resume nts w (Inr dataUrl) (p, a)))
             = app.thumbnailDataByPath a)
        \<and> (js_String nts v = Inr k \<and> \<not> entry_truthy (app.thumbnailDataByPath a) k
             \<and> js_String nts dataUrl = Inr text \<and> runId p = hydrationRunIdRef a \<longrightarrow>
           app.thumbnailDataByPath (snd (worker_resume nts w (Inr dataUrl) (p, a)))
             = (app.thumbnailDataByPath a)(k \<mapsto> text))
        \<and> (js_String nts v = Inr k \<and> \<not> entry_truthy (app.thumbnailDataByPath a) k
             \<and> js_String nts dataUrl = Inl e \<longrightarrow>
           app.thumbnailDataByPath (snd (worker_resume nts w (Inr dataUrl) (p, a)))
             = app.thumbnailDataByPath a)
        \<and> (js_String nts v \<noteq> Inr k' \<longrightarrow>
           app.thumbnailDataByPath (snd (worker_resume nts w (Inr dataUrl) (p, a))) k'
             = app.thumbnailDataByPath a k')"
    if h: "w < length (workers p)" "workers p ! w = Awaiting i item" "js_get item ''path'' = Inr v"
  proof -
    note t = worker_resume_thumbnails [OF h, of nts dataUrl a]
    have 1: "js_String nts v = Inr k \<and> app.thumbnailDataByPath a k = Some s \<and> s \<noteq> [] \<longrightarrow>
           app.thumbnailDataByPath (snd (worker_resume nts w (Inr dataUrl) (p, a)))
             = app.thumbnailDataByPath a"
      by (auto simp: t setThumbnail_kept entry_truthy_def)
    have 2: "js_String nts v = Inr k \<and> entry_truthy (app.thumbnailDataByPath a) k \<longrightarrow>
           app.thumbnailDataByPath (snd (worker_resume nts w (Inr dataUrl) (p, a)))
             = app.thumbnailDataByPath a"
      by (auto simp: t setThumbnail_kept)
    have 3: "js_String nts v = Inr k \<and> \<not> entry_truthy (app.thumbnailDataByPath a) k
             \<and> js_String nts dataUrl = Inr text \<and> runId p = hydrationRunIdRef a \<longrightarrow>
           app.thumbnailDataByPath (snd (worker_resume nts w (Inr dataUrl) (p, a)))
             = (app.thumbnailDataByPath a)(k \<mapsto> text)"
      by (auto simp: t setThumbnail_written)
    have 4: "js_String nts v = Inr k \<and> \<not> entry_truthy (app.thumbnailDataByPath a) k
             \<and> js_String nts dataUrl = Inl e \<longrightarrow>
           app.thumbnailDataByPath (snd (worker_resume nts w (Inr dataUrl) (p, a)))
             = app.thumbnailDataByPath a"
      by (auto simp: t setThumbnail_written)
    have 5: "js_String nts v \<noteq> Inr k' \<longrightarrow>
           app.thumbnailDataByPath (snd (worker_resume nts w (Inr dataUrl) (p, a))) k'
             = app.thumbnailDataByPath a k'"
      using worker_resume_other [OF h, of nts k' dataUrl a] by blast
    from 1 2 3 4 5 show ?thesis by blast
  qed
  from t u o r show ?thesis by blast
qed

text \<open>
  An instance: the map holds \<open>data:old\<close> for \<open>/p/a.png\<close> and nothing else. A result for
  \<open>/p/a.png\<close> leaves it as it is, in the updater and in a worker; a result for
  \<open>/p/b.png\<close> is written; a result for the path \<open>toString\<close> is not; and in an empty
  map a worker of the current run writes its result for \<open>/p/a.png\<close>.
\<close>

theorem thumbnail_entry_write_once_witness:
  "(let a = example_app\<lparr>app.thumbnailDataByPath := example_thumbnails\<rparr>;
        p = hydrateThumbnails duplicate_items 1 a;
        a' = snd (worker_resume integer_toString 0 (Inr (JStr ''data:new'')) (p, a));
        q = hydrateThumbnails duplicate_items 1 example_app;
        b' = snd (worker_resume integer_toString 0 (Inr (JStr ''data:new'')) (q, example_app))
    in workers p ! 0 = Awaiting 0 (JObj [(''path'', JStr ''/p/a.png'')])
       \<and> example_thumbnails ''/p/a.png'' = Some ''data:old''
       \<and> setThumbnail integer_toString example_thumbnails (JStr ''/p/a.png'') (JStr ''data:new'')
           = Inr example_thumbnails
       \<and> app.thumbnailDataByPath a' = example_thumbnails
       \<and> \<not> entry_truthy example_thumbnails ''/p/b.png''
       \<and> setThumbnail integer_toString example_thumbnails (JStr ''/p/b.png'') (JStr ''data:b'')
           = Inr (example_thumbnails(''/p/b.png'' \<mapsto> ''data:b''))
       \<and> entry_truthy example_thumbnails ''toString''
       \<and> setThumbnail integer_toString example_thumbnails (JStr ''toString'') (JStr ''data:b'')
           = Inr example_thumbnails
       \<and> workers q ! 0 = Awaiting 0 (JObj [(''path'', JStr ''/p/a.png'')])
       \<and> app.thumbnailDataByPath b' = Map.empty(''/p/a.png'' \<mapsto> ''data:new'')
       \<and> app.thumbnailDataByPath b' ''/p/a.png'' = Some ''data:new'')"
proof -
  let ?a = "example_app\<lparr>app.thumbnailDataByPath := example_thumbnails\<rparr>"
  let ?p = "hydrateThumbnails duplicate_items 1 ?a"
  let ?q = "hydrateThumbnails duplicate_items 1 example_app"
  let ?item = "JObj [(''path'', JStr ''/p/a.png'')]"
  have w: "0 < length (workers ?p)"
    using hydrateThumbnails_inv [of duplicate_items 1 ?a] by (simp add: duplicate_items_def)
  have s: "workers ?p ! 0 = Awaiting 0 ?item"
    by (simp add: hydrateThumbnails_def duplicate_items_def example_app_def Let_def
        numeral_2_eq_2 worker_loop.simps nth_append)
  have w': "0 < length (workers ?q)"
    using hydrateThumbnails_inv [of duplicate_items 1 example_app]
    by (simp add: duplicate_items_def)
  have s': "workers ?q ! 0 = Awaiting 0 ?item"
    by (simp add: hydrateThumbnails_def duplicate_items_def example_app_def Let_def
        numeral_2_eq_2 worker_loop.simps nth_append)
  have c: "runId ?q = hydrationRunIdRef example_app"
    using hydrateThumbnails_inv [of duplicate_items 1 example_app]
    by (simp add: example_app_def)
  have g: "js_get ?item ''path'' = Inr (JStr ''/p/a.png'')" by simp
  have ka: "js_String integer_toString (JStr ''/p/a.png'') = Inr ''/p/a.png''"
    and kb: "js_String integer_toString (JStr ''/p/b.png'') = Inr ''/p/b.png''"
    and kt: "js_String integer_toString (JStr ''toString'') = Inr ''toString''"
    and dn: "js_String integer_toString (JStr ''data:new'') = Inr ''data:new''"
    and db: "js_String integer_toString (JStr ''data:b'') = Inr ''data:b''"
    by simp_all
  have t: "example_thumbnails ''/p/a.png'' = Some ''data:old''"
    and tb: "\<not> entry_truthy example_thumbnails ''/p/b.png''"
    and tt: "entry_truthy example_thumbnails ''toString''"
    by (simp_all add: example_thumbnails_def entry_truthy_def Object_prototype_keys_def)
  have t': "app.thumbnailDataByPath ?a ''/p/a.png'' = Some ''data:old''"
    by (simp add: example_thumbnails_def)
  have e: "\<not> entry_truthy (app.thumbnailDataByPath example_app) ''/p/a.png''"
    by (simp add: example_app_def entry_truthy_def Object_prototype_keys_def)
  have e': "app.thumbnailDataByPath example_app = Map.empty"
    by (simp add: example_app_def)
  have n: "''data:old'' \<noteq> []" by simp
  note kept = thumbnail_entry_write_once [of example_thumbnails "''/p/a.png''" integer_toString
      "JStr ''/p/a.png''" "''data:old''" "JStr ''data:new''" "''data:new''" TypeError
      example_thumbnails "''/p/b.png''" 0 ?p 0 ?item "JStr ''/p/a.png''" ?a "JStr ''data:new''"]
  note written = thumbnail_entry_write_once [of example_thumbnails "''/p/b.png''" integer_toString
      "JStr ''/p/b.png''" "''data:old''" "JStr ''data:b''" "''data:b''" TypeError
      example_thumbnails "''/p/b.png''" 0 ?q 0 ?item "JStr ''/p/a.png''" example_app
      "JStr ''data:new''"]
  note inherited = thumbnail_entry_write_once [of example_thumbnails "''toString''"
      integer_toString "JStr ''toString''" "''data:old''" "JStr ''data:b''" "''data:b''" TypeError
      example_thumbnails "''/p/b.png''" 0 ?q 0 ?item "JStr ''/p/a.png''" example_app
      "JStr ''data:new''"]
  note current = thumbnail_entry_write_once [of example_thumbnails "''/p/a.png''"
      integer_toString "JStr ''/p/b.png''" "''data:old''" "JStr ''data:b''" "''data:new''"
      TypeError example_thumbnails "''/p/b.png''" 0 ?q 0 ?item "JStr ''/p/a.png''" example_app
      "JStr ''data:new''"]
  from kept ka t n
  have k1: "setThumbnail integer_toString example_thumbnails (JStr ''/p/a.png'') (JStr ''data:new'')
           = Inr example_thumbnails"
    by blast
  from kept w s g ka t' n
  have k2: "app.thumbnailDataByPath
             (snd (worker_resume integer_toString 0 (Inr (JStr ''data:new'')) (?p, ?a)))
           = app.thumbnailDataByPath ?a"
    by blast
  from written kb tb db
  have w1: "setThumbnail integer_toString example_thumbnails (JStr ''/p/b.png'') (JStr ''data:b'')
           = Inr (example_thumbnails(''/p/b.png'' \<mapsto> ''data:b''))"
    by blast
  from inherited kt tt
  have i1: "setThumbnail integer_toString example_thumbnails (JStr ''toString'') (JStr ''data:b'')
           = Inr example_thumbnails"
    by blast
  from current w' s' g ka e dn c
  have w2: "app.thumbnailDataByPath
             (snd (worker_resume integer_toString 0 (Inr (JStr ''data:new'')) (?q, example_app)))
           = (app.thumbnailDataByPath example_app)(''/p/a.png'' \<mapsto> ''data:new'')"
    by blast
  from k1 k2 w1 i1 w2 s s' t tb tt e' show ?thesis by (simp add: Let_def)
qed

text \<open>
  C9 as stated fails for an entry that is the empty string, which the updater's
  truthiness test treats as missing. A list that names \<open>/p/a.png\<close> twice, a first result
  whose string is empty and a second result \<open>data:x\<close>: the map holds the entry \<open>''\<close> for
  the path after the first result, and the second result replaces it.
\<close>

theorem thumbnail_entry_replaced_counterexample:
  "(let c1 = hydration_run integer_toString [ThumbnailSettled 0 (Inr (JStr []))]
               (hydrateThumbnails duplicate_items 1 example_app, example_app);
        c2 = worker_resume integer_toString 1 (Inr (JStr ''data:x'')) c1
    in app.thumbnailDataByPath (snd c1) ''/p/a.png'' = Some []
       \<and> app.thumbnailDataByPath (snd c2) ''/p/a.png'' = Some ''data:x''
       \<and> app.thumbnailDataByPath (snd c2) \<noteq> app.thumbnailDataByPath (snd c1))"
proof -
  let ?c1 = "hydration_run integer_toString [ThumbnailSettled 0 (Inr (JStr []))]
               (hydrateThumbnails duplicate_items 1 example_app, example_app)"
  let ?c2 = "worker_resume integer_toString 1 (Inr (JStr ''data:x'')) ?c1"
  have a: "app.thumbnailDataByPath (snd ?c1) ''/p/a.png'' = Some []" by code_simp
  have b: "app.thumbnailDataByPath (snd ?c2) ''/p/a.png'' = Some ''data:x''" by code_simp
  from a b have "app.thumbnailDataByPath (snd ?c2) \<noteq> app.thumbnailDataByPath (snd ?c1)"
    by (metis list.distinct(1) option.inject)
  with a b show ?thesis by (simp add: Let_def)
qed

section \<open>A batch runs to its end\<close>

lemma run_batch_invariant:
  assumes "P c"
    and "\<And>c w. P c \<Longrightarrow> w \<in> set (suspended (fst c)) \<Longrightarrow>
            P (worker_resume nts w (load (index_of (workers (fst c) ! w))) c)"
  shows "P (run_batch nts pick load c)"
  using assms
proof (induction nts pick load c rule: run_batch.induct)
  case (1 nts pick load c)
  show ?case
  proof (cases "suspended (fst c) = []")
    case True
    with "1.prems"(1) show ?thesis by (simp add: run_batch.simps [of nts pick load c])
  next
    case False
    let ?w = "choose_worker pick (suspended (fst c))"
    let ?c' = "worker_resume nts ?w (load (index_of (workers (fst c) ! ?w))) c"
    from False have "?w \<in> set (suspended (fst c))" by (rule choose_worker_mem)
    with "1.prems"(1) have "P ?c'" by (rule "1.prems"(2))
    from "1.IH" [OF False refl refl this "1.prems"(2)] False show ?thesis
      by (simp add: run_batch.simps [of nts pick load c] Let_def)
  qed
qed

lemma run_batch_done: "suspended (fst (run_batch nts pick load c)) = []"
proof (induction nts pick load c rule: run_batch.induct)
  case (1 nts pick load c)
  show ?case
  proof (cases "suspended (fst c) = []")
    case True
    then show ?thesis by (simp add: run_batch.simps [of nts pick load c])
  next
    case False
    from "1.IH" [OF False refl refl] False show ?thesis
      by (simp add: run_batch.simps [of nts pick load c] Let_def)
  qed
qed

lemma suspended_empty_iff: "suspended p = [] \<longleftrightarrow> all_returned p"
  by (auto simp: suspended_def all_returned_def list_all_iff filter_empty_conv in_set_conv_nth)
    (metis nth_mem)

lemma worker_loop_drained:
  assumes wl: "worker_loop cur p = (ws, p')" and inv: "pool_inv p" and cur: "runId p = cur"
    and dr: "Returned \<in> set (workers p) \<longrightarrow> cursor p = length (galleryItems p)"
  shows "Returned \<in> set ((workers p)[w := ws]) \<longrightarrow> cursor p' = length (galleryItems p)"
proof
  assume r: "Returned \<in> set ((workers p)[w := ws])"
  from inv have c: "cursor p \<le> length (galleryItems p)"
    and i: "invoked p = filter (\<lambda>i. has_path (galleryItems p ! i)) [0..<cursor p]"
    by (simp_all add: pool_inv_def)
  note st = worker_loop_step [OF wl c i]
  from r set_update_subset_insert [of "workers p" w ws]
  consider "ws = Returned" | "Returned \<in> set (workers p)" by auto
  then show "cursor p' = length (galleryItems p)"
  proof cases
    case 1
    with st cur show ?thesis by simp
  next
    case 2
    with dr have "cursor p = length (galleryItems p)" by simp
    with st show ?thesis by simp
  qed
qed

lemma worker_continue_batch:
  assumes b: "batch_inv items0 cur n (p, a)" and w: "w < length (workers p)"
    and ref: "hydrationRunIdRef a' = cur"
  shows "batch_inv items0 cur n (worker_continue w (p, a'))"
proof -
  obtain ws p' where wl: "worker_loop (hydrationRunIdRef a') p = (ws, p')"
    by (cases "worker_loop (hydrationRunIdRef a') p")
  from b have inv: "pool_inv p" and gi: "galleryItems p = items0" and rid: "runId p = cur"
    and len: "length (workers p) = n"
    and dr: "Returned \<in> set (workers p) \<longrightarrow> cursor p = length (galleryItems p)"
    by (simp_all add: batch_inv_def)
  note ci = worker_continue_inv [OF inv w, of a']
  from worker_loop_props [OF wl] have wk: "workers p' = workers p" by simp
  have res: "worker_continue w (p, a') = (p'\<lparr>workers := (workers p)[w := ws]\<rparr>, a')"
    using wl wk by (simp add: worker_continue_def)
  from wl ref have wl': "worker_loop cur p = (ws, p')" by simp
  from worker_loop_drained [OF wl' inv rid dr, of w]
  have "Returned \<in> set ((workers p)[w := ws]) \<longrightarrow> cursor p' = length items0" by (simp add: gi)
  with ci gi rid len ref show ?thesis by (simp add: batch_inv_def res)
qed

lemma worker_resume_batch:
  assumes b: "batch_inv items0 cur n (p, a)" and w: "w \<in> set (suspended p)"
  shows "batch_inv items0 cur n (worker_resume nts w outcome (p, a))"
proof -
  from w have wl: "w < length (workers p)" and nr: "workers p ! w \<noteq> Returned"
    by (simp_all add: suspended_mem)
  from b have ref: "hydrationRunIdRef a = cur" and rid: "runId p = cur"
    by (simp_all add: batch_inv_def)
  have cont: "batch_inv items0 cur n (worker_continue w (p, a'))"
    if "hydrationRunIdRef a' = hydrationRunIdRef a" for a'
    using worker_continue_batch [OF b wl, of a'] that ref by simp
  from nr obtain i item where aw: "workers p ! w = Awaiting i item"
    by (cases "workers p ! w") auto
  show ?thesis
  proof (cases outcome)
    case (Inl err)
    with wl aw cont [of a] show ?thesis by (simp add: worker_resume_def)
  next
    case (Inr d)
    show ?thesis
    proof (cases "js_get item ''path''")
      case (Inl e)
      with Inr wl aw ref rid cont [of a] show ?thesis by (simp add: worker_resume_def)
    next
      case (Inr v)
      have "batch_inv items0 cur n
              (worker_continue w (p, a\<lparr>app.thumbnailDataByPath := m\<rparr>))" for m
        by (rule cont) simp
      with cont [of a] Inr \<open>outcome = Inr d\<close> wl aw ref rid show ?thesis
        by (simp add: worker_resume_def split: sum.splits)
    qed
  qed
qed

lemma worker_resume_key_untouched:
  assumes inv: "pool_inv p" and w: "w \<in> set (suspended p)"
    and fails: "\<forall>i<length (galleryItems p). \<forall>v.
        js_get (galleryItems p ! i) ''path'' = Inr v \<and> js_String nts v = Inr k \<longrightarrow> isl (load i)"
  shows "app.thumbnailDataByPath
           (snd (worker_resume nts w (load (index_of (workers p ! w))) (p, a))) k
         = app.thumbnailDataByPath a k"
proof -
  from w have wl: "w < length (workers p)" and nr: "workers p ! w \<noteq> Returned"
    by (simp_all add: suspended_mem)
  from nr obtain i item where aw: "workers p ! w = Awaiting i item"
    by (cases "workers p ! w") auto
  from inv wl have "worker_ok p (workers p ! w)" by (simp add: pool_inv_def list_all_iff)
  with aw inv have il: "i < length (galleryItems p)" and it: "item = galleryItems p ! i"
    and hp: "has_path item"
    by (auto simp: worker_ok_def pool_inv_def)
  from hp obtain v where v: "js_get item ''path'' = Inr v"
    by (auto simp: has_path_def split: sum.splits)
  show ?thesis
  proof (cases "load i")
    case (Inl err)
    with wl aw show ?thesis by (simp add: worker_resume_def index_of_def worker_continue_app)
  next
    case (Inr d)
    with fails il it v have "js_String nts v \<noteq> Inr k" by auto
    from worker_resume_other [OF wl aw v this, of d a] Inr aw show ?thesis
      by (simp add: index_of_def)
  qed
qed

lemma hydrateThumbnails_batch:
  "batch_inv items0 (hydrationRunIdRef a) (min 6 (length items0))
     (hydrateThumbnails items0 (hydrationRunIdRef a) a, a)"
proof -
  have sp: "batch_inv (galleryItems p) (hydrationRunIdRef a) (length (workers p) + n)
              (spawn (hydrationRunIdRef a) n p, a)"
    if "batch_inv (galleryItems p) (hydrationRunIdRef a) (length (workers p)) (p, a)" for n p
    using that
  proof (induction n arbitrary: p)
    case 0
    then show ?case by simp
  next
    case (Suc n)
    obtain w p' where wl: "worker_loop (hydrationRunIdRef a) p = (w, p')"
      by (cases "worker_loop (hydrationRunIdRef a) p")
    from Suc.prems have inv: "pool_inv p" and rid: "runId p = hydrationRunIdRef a"
      and dr: "Returned \<in> set (workers p) \<longrightarrow> cursor p = length (galleryItems p)"
      by (simp_all add: batch_inv_def)
    from inv have c: "cursor p \<le> length (galleryItems p)"
      and i: "invoked p = filter (\<lambda>i. has_path (galleryItems p ! i)) [0..<cursor p]"
      by (simp_all add: pool_inv_def)
    note st = worker_loop_step [OF wl c i]
    let ?q = "p'\<lparr>workers := workers p' @ [w]\<rparr>"
    from spawn_inv [OF inv, of "hydrationRunIdRef a" "Suc 0"] wl
    have q: "pool_inv ?q" by simp
    have "Returned \<in> set (workers p @ [w]) \<longrightarrow> cursor p' = length (galleryItems p)"
      using st dr rid by auto
    with q st rid have "batch_inv (galleryItems ?q) (hydrationRunIdRef a) (length (workers ?q)) (?q, a)"
      by (simp add: batch_inv_def)
    from Suc.IH [OF this] st wl show ?case by simp
  qed
  let ?p0 = "\<lparr>galleryItems = items0, runId = hydrationRunIdRef a, cursor = 0, workers = [],
              invoked = []\<rparr>"
  have "batch_inv (galleryItems ?p0) (hydrationRunIdRef a) (length (workers ?p0)) (?p0, a)"
    by (simp add: batch_inv_def pool_inv_def)
  from sp [OF this, of "min 6 (length items0)"] show ?thesis
    by (simp add: hydrateThumbnails_def Let_def)
qed

lemma batch_inv_finished:
  assumes b: "batch_inv items0 cur (min 6 (length items0)) c" and d: "all_returned (fst c)"
  shows "invoked (fst c) = filter (\<lambda>i. has_path (items0 ! i)) [0..<length items0]"
proof -
  from b have inv: "pool_inv (fst c)" and gi: "galleryItems (fst c) = items0"
    and len: "length (workers (fst c)) = min 6 (length items0)"
    and dr: "Returned \<in> set (workers (fst c)) \<longrightarrow> cursor (fst c) = length items0"
    by (simp_all add: batch_inv_def)
  have "cursor (fst c) = length items0"
  proof (cases "items0 = []")
    case True
    with inv gi show ?thesis by (simp add: pool_inv_def)
  next
    case False
    with len have "workers (fst c) \<noteq> []" by (auto simp: min_def split: if_splits)
    then obtain x where x: "x \<in> set (workers (fst c))" by (cases "workers (fst c)") auto
    with d have "x = Returned" by (simp add: all_returned_def list_all_iff)
    with x dr show ?thesis by simp
  qed
  with inv gi show ?thesis by (simp add: pool_inv_def)
qed

text \<open>
  C4. A rejected \<open>load_thumbnail\<close> call is caught in the worker: the worker goes on
  exactly as from the head of its loop, and the app state is untouched. Over a whole
  batch started under the current run id, for every schedule and every assignment of
  outcomes to the items: the batch ends with every worker returned (\<open>Promise.all\<close>
  resolves; a worker's promise cannot reject), every item whose path can be read has been
  passed to \<open>load_thumbnail\<close>, in order, however many calls failed, and a path all of
  whose calls failed has the entry it had before (none, if it had none).
\<close>

theorem failed_thumbnail_does_not_stop_batch:
  "(w < length (workers p) \<and> workers p ! w = Awaiting i item \<longrightarrow>
      worker_resume nts w (Inl err) (p, a) = worker_continue w (p, a)
      \<and> snd (worker_resume nts w (Inl err) (p, a)) = a)
   \<and> (let c = run_batch nts pick load (hydrateThumbnails items0 (hydrationRunIdRef a) a, a)
      in all_returned (fst c)
         \<and> invoked (fst c) = filter (\<lambda>i. has_path (items0 ! i)) [0..<length items0]
         \<and> ((\<forall>i<length items0. \<forall>v.
                js_get (items0 ! i) ''path'' = Inr v \<and> js_String nts v = Inr k \<longrightarrow> isl (load i))
              \<longrightarrow> app.thumbnailDataByPath (snd c) k = app.thumbnailDataByPath a k))"
proof -
  let ?start = "(hydrateThumbnails items0 (hydrationRunIdRef a) a, a)"
  let ?c = "run_batch nts pick load ?start"
  let ?B = "batch_inv items0 (hydrationRunIdRef a) (min 6 (length items0))"
  have b: "?B ?c"
  proof (rule run_batch_invariant [where P = ?B])
    show "?B ?start" by (rule hydrateThumbnails_batch)
  next
    fix c :: "pool \<times> app" and w
    assume "?B c" and "w \<in> set (suspended (fst c))"
    then show "?B (worker_resume nts w (load (index_of (workers (fst c) ! w))) c)"
      using worker_resume_batch [of items0 _ _ "fst c" "snd c" w nts] by simp
  qed
  have d: "all_returned (fst ?c)"
    using run_batch_done [of nts pick load ?start] by (simp add: suspended_empty_iff)
  have k: "app.thumbnailDataByPath (snd ?c) k = app.thumbnailDataByPath a k"
    if fails: "\<forall>i<length items0. \<forall>v.
        js_get (items0 ! i) ''path'' = Inr v \<and> js_String nts v = Inr k \<longrightarrow> isl (load i)"
  proof -
    let ?P = "\<lambda>c. ?B c \<and> app.thumbnailDataByPath (snd c) k = app.thumbnailDataByPath a k"
    have "?P ?c"
    proof (rule run_batch_invariant [where P = ?P])
      show "?P ?start" using hydrateThumbnails_batch [of items0 a] by simp
    next
      fix c :: "pool \<times> app" and w
      assume P: "?P c" and w: "w \<in> set (suspended (fst c))"
      then have inv: "pool_inv (fst c)" and gi: "galleryItems (fst c) = items0"
        by (simp_all add: batch_inv_def)
      from fails gi have f': "\<forall>i<length (galleryItems (fst c)). \<forall>v.
          js_get (galleryItems (fst c) ! i) ''path'' = Inr v \<and> js_String nts v = Inr k \<longrightarrow> isl (load i)"
        by simp
      from worker_resume_key_untouched [OF inv w f', of "snd c"] P
        worker_resume_batch [of items0 _ _ "fst c" "snd c" w nts]  w
      show "?P (worker_resume nts w (load (index_of (workers (fst c) ! w))) c)" by simp
    qed
    then show ?thesis by simp
  qed
  have s: "worker_resume nts w (Inl err) (p, a) = worker_continue w (p, a)
      \<and> snd (worker_resume nts w (Inl err) (p, a)) = a"
    if "w < length (workers p)" "workers p ! w = Awaiting i item"
    using that by (simp add: worker_resume_def worker_continue_app)
  from b d k s batch_inv_finished [OF b d] show ?thesis
    by (simp add: Let_def worker_continue_app)
qed

theorem failed_thumbnail_does_not_stop_batch_witness:
  "(let p = hydrateThumbnails example_items (hydrationRunIdRef example_app) example_app;
        c = run_batch integer_toString last example_load (p, example_app)
    in workers p ! 0 = Awaiting 0 (JObj [(''path'', JStr ''/p/a.png''), (''name'', JStr ''a.png'')])
       \<and> snd (worker_resume integer_toString 0 (Inl (JStr ''decode error'')) (p, example_app))
           = example_app
       \<and> all_returned (fst c)
       \<and> invoked (fst c) = [0, 2]
       \<and> app.thumbnailDataByPath (snd c) ''/p/a.png'' = None
       \<and> app.thumbnailDataByPath (snd c) ''/p/b.png'' = Some ''data:b'')"
proof -
  let ?p = "hydrateThumbnails example_items (hydrationRunIdRef example_app) example_app"
  let ?c = "run_batch integer_toString last example_load (?p, example_app)"
  let ?item = "JObj [(''path'', JStr ''/p/a.png''), (''name'', JStr ''a.png'')]"
  have w: "0 < length (workers ?p)"
    using hydrateThumbnails_inv [of example_items "hydrationRunIdRef example_app" example_app]
    by (simp add: example_items_def)
  have s: "workers ?p ! 0 = Awaiting 0 ?item" by code_simp
  have e: "app.thumbnailDataByPath (snd ?c) ''/p/b.png'' = Some ''data:b''"
    by code_simp
  have f: "filter (\<lambda>i. has_path (example_items ! i)) [0..<length example_items] = [0, 2]"
    by code_simp
  have h: "\<forall>i<length example_items. \<forall>v.
      js_get (example_items ! i) ''path'' = Inr v
        \<and> js_String integer_toString v = Inr ''/p/a.png''
        \<longrightarrow> isl (example_load i)"
    by (auto simp: example_items_def example_load_def less_Suc_eq)
  have a: "app.thumbnailDataByPath example_app ''/p/a.png'' = None"
    by (simp add: example_app_def)
  note inst = failed_thumbnail_does_not_stop_batch [of 0 ?p 0 ?item integer_toString
      "JStr ''decode error''" example_app last example_load example_items "''/p/a.png''"]
  from inst w s
  have r: "snd (worker_resume integer_toString 0 (Inl (JStr ''decode error'')) (?p, example_app))
           = example_app"
    by blast
  from inst h e f a r s show ?thesis by (simp add: Let_def)
qed

end
